theory Spec2Isabelle
  imports Complex_Main "HOL-Library.Log_Nat" "HOL-Library.AList"
begin

section \<open>JavaScript strings\<close>

text \<open>
  File names are modelled as \<^typ>\<open>string\<close>, one \<^typ>\<open>char\<close> per code unit; the
  model covers ASCII file names (case mapping and white space beyond ASCII are left out).
\<close>

definition dq :: char where
  "dq = CHR 0x22"

definition is_digit :: "char \<Rightarrow> bool" where
  "is_digit c = (c \<in> set ''0123456789'')"

definition is_alpha :: "char \<Rightarrow> bool" where
  "is_alpha c = (c \<in> set ''abcdefghijklmnopqrstuvwxyzABCDEFGHIJKLMNOPQRSTUVWXYZ'')"

definition is_line_terminator :: "char \<Rightarrow> bool" where
  "is_line_terminator c = (c = CHR 0x0A \<or> c = CHR 0x0D)"

definition is_space :: "char \<Rightarrow> bool" where
  "is_space c = (c \<in> set [CHR 0x20, CHR 0x09, CHR 0x0A, CHR 0x0B, CHR 0x0C, CHR 0x0D])"

text \<open>\<^verbatim>\<open>s.startsWith(p)\<close>\<close>

definition startsWith :: "string \<Rightarrow> string \<Rightarrow> bool" where
  "startsWith s p = (take (length p) s = p)"

text \<open>\<^verbatim>\<open>s.includes(sub)\<close>\<close>

fun includes_str :: "string \<Rightarrow> string \<Rightarrow> bool" where
  "includes_str [] sub = (sub = [])"
| "includes_str (c # cs) sub = (take (length sub) (c # cs) = sub \<or> includes_str cs sub)"

text \<open>
  \<^verbatim>\<open>s.split(sep)\<close> for a non-empty separator: the occurrences of \<open>sep\<close> are found
  from left to right without overlap; \<open>acc\<close> holds the current segment, reversed.
\<close>

fun split_from :: "string \<Rightarrow> string \<Rightarrow> string \<Rightarrow> string list" where
  "split_from sep acc [] = [rev acc]"
| "split_from sep acc (c # cs) =
     (if sep \<noteq> [] \<and> take (length sep) (c # cs) = sep
      then rev acc # split_from sep [] (drop (length sep - 1) cs)
      else split_from sep (c # acc) cs)"

definition split_js :: "string \<Rightarrow> string \<Rightarrow> string list" where
  "split_js s sep = split_from sep [] s"

text \<open>\<^verbatim>\<open>s.trim()\<close> and \<^verbatim>\<open>s.toLowerCase()\<close>\<close>

definition trim :: "string \<Rightarrow> string" where
  "trim s = rev (dropWhile is_space (rev (dropWhile is_space s)))"

definition lower_char :: "char \<Rightarrow> char" where
  "lower_char c =
     (case map_of (zip ''ABCDEFGHIJKLMNOPQRSTUVWXYZ'' ''abcdefghijklmnopqrstuvwxyz'') c of
        None \<Rightarrow> c | Some l \<Rightarrow> l)"

definition toLowerCase :: "string \<Rightarrow> string" where
  "toLowerCase s = map lower_char s"

section \<open>Regular expressions\<close>

text \<open>
  The regular expressions of the source are values of \<open>rx\<close>; \<open>rmatch r s\<close> decides
  whether the whole of \<open>s\<close> matches \<open>r\<close>, by derivatives.
\<close>

datatype rx = Nul | Eps | Cls "char \<Rightarrow> bool" | Seq rx rx | Alt rx rx | Star rx

fun nullable :: "rx \<Rightarrow> bool" where
  "nullable Nul = False"
| "nullable Eps = True"
| "nullable (Cls p) = False"
| "nullable (Seq r s) = (nullable r \<and> nullable s)"
| "nullable (Alt r s) = (nullable r \<or> nullable s)"
| "nullable (Star r) = True"

fun deriv :: "char \<Rightarrow> rx \<Rightarrow> rx" where
  "deriv c Nul = Nul"
| "deriv c Eps = Nul"
| "deriv c (Cls p) = (if p c then Eps else Nul)"
| "deriv c (Seq r s) =
     (if nullable r then Alt (Seq (deriv c r) s) (deriv c s) else Seq (deriv c r) s)"
| "deriv c (Alt r s) = Alt (deriv c r) (deriv c s)"
| "deriv c (Star r) = Seq (deriv c r) (Star r)"

fun rmatch :: "rx \<Rightarrow> string \<Rightarrow> bool" where
  "rmatch r [] = nullable r"
| "rmatch r (c # cs) = rmatch (deriv c r) cs"

text \<open>The notation of the source: a literal, \<open>r{n}\<close>, \<open>r{0,n}\<close>, \<open>r+\<close>.\<close>

definition lit :: "char \<Rightarrow> rx" where
  "lit a = Cls (\<lambda>c. c = a)"

fun lits :: "string \<Rightarrow> rx" where
  "lits [] = Eps"
| "lits (a # as) = Seq (lit a) (lits as)"

fun rep :: "nat \<Rightarrow> rx \<Rightarrow> rx" where
  "rep 0 r = Eps"
| "rep (Suc n) r = Seq r (rep n r)"

fun rep_upto :: "nat \<Rightarrow> rx \<Rightarrow> rx" where
  "rep_upto 0 r = Eps"
| "rep_upto (Suc n) r = Alt Eps (Seq r (rep_upto n r))"

definition rplus :: "rx \<Rightarrow> rx" where
  "rplus r = Seq r (Star r)"

text \<open>
  \<^verbatim>\<open>/^r$/.test(s)\<close> is \<open>rmatch r s\<close>. A pattern \<^verbatim>\<open>/r$/\<close> with no \<^verbatim>\<open>^\<close> matches
  when some suffix of \<open>s\<close> matches \<open>r\<close>; \<^verbatim>\<open>s.replace(/r$/, '')\<close> removes the
  leftmost such suffix, and leaves \<open>s\<close> as it is when there is none.
\<close>

definition test_end :: "rx \<Rightarrow> string \<Rightarrow> bool" where
  "test_end r s = list_ex (\<lambda>i. rmatch r (drop i s)) [0..<Suc (length s)]"

definition replace_end :: "rx \<Rightarrow> string \<Rightarrow> string" where
  "replace_end r s =
     (case find (\<lambda>i. rmatch r (drop i s)) [0..<Suc (length s)] of
        None \<Rightarrow> s | Some i \<Rightarrow> take i s)"

text \<open>The five patterns of \<^verbatim>\<open>parseFileName\<close>.\<close>

definition rx_date :: rx where
  \<comment> \<open>\<^verbatim>\<open>/^\d{4}-\d{2}-\d{2}$/\<close>\<close>
  "rx_date = Seq (rep 4 (Cls is_digit)) (Seq (lit CHR ''-'')
               (Seq (rep 2 (Cls is_digit)) (Seq (lit CHR ''-'') (rep 2 (Cls is_digit)))))"

definition rx_extension :: rx where
  \<comment> \<open>\<^verbatim>\<open>/\.[a-zA-Z]{2,5}$/\<close>\<close>
  "rx_extension = Seq (lit CHR ''.'') (Seq (rep 2 (Cls is_alpha)) (rep_upto 3 (Cls is_alpha)))"

definition rx_reimbursed :: rx where
  \<comment> \<open>\<^verbatim>\<open>/\.reimbursed\..+$/\<close>\<close>
  "rx_reimbursed = Seq (lits ''.reimbursed.'') (rplus (Cls (\<lambda>c. \<not> is_line_terminator c)))"

definition rx_last_extension :: rx where
  \<comment> \<open>\<^verbatim>\<open>/\.[^.]+$/\<close>\<close>
  "rx_last_extension = Seq (lit CHR ''.'') (rplus (Cls (\<lambda>c. c \<noteq> CHR ''.'')))"

definition rx_amount :: rx where
  \<comment> \<open>\<^verbatim>\<open>/^\d+\.\d{2}$/\<close>\<close>
  "rx_amount = Seq (rplus (Cls is_digit)) (Seq (lit CHR ''.'') (rep 2 (Cls is_digit)))"

section \<open>JavaScript numbers\<close>

text \<open>
  A number is the rational value of a finite IEEE 754 double. \<open>fl\<close> rounds a rational to
  the nearest double (53 significant bits, ties to even); the exponent range is not
  bounded, so overflow to \<^verbatim>\<open>Infinity\<close> (beyond 300 digits) and subnormal numbers
  (below \<open>10\<^sup>-\<^sup>3\<^sup>0\<^sup>0\<close>) are outside the model, as is \<^verbatim>\<open>NaN\<close>.
\<close>

type_synonym number = rat

definition pow2 :: "int \<Rightarrow> rat" where
  "pow2 e = (if 0 \<le> e then 2 ^ nat e else 1 / 2 ^ nat (- e))"

definition ilog2 :: "rat \<Rightarrow> int" where
  \<comment> \<open>the exponent \<open>e\<close> with \<open>2\<^sup>e \<le> x < 2\<^sup>e\<^sup>+\<^sup>1\<close>, for \<open>0 < x\<close>\<close>
  "ilog2 x =
     (if 1 \<le> x then bitlen \<lfloor>x\<rfloor> - 1
      else (let j = bitlen \<lfloor>1 / x\<rfloor> in if x * pow2 (j - 1) = 1 then 1 - j else - j))"

definition round_half_even :: "rat \<Rightarrow> int" where
  "round_half_even m =
     (let f = \<lfloor>m\<rfloor>; d = m - of_int f
      in if d < 1 / 2 then f else if 1 / 2 < d then f + 1 else if even f then f else f + 1)"

definition fl_pos :: "rat \<Rightarrow> rat" where
  "fl_pos x = (let u = pow2 (ilog2 x - 52) in of_int (round_half_even (x / u)) * u)"

definition fl :: "rat \<Rightarrow> number" where
  "fl x = (if x = 0 then 0 else if x < 0 then - fl_pos (- x) else fl_pos x)"

text \<open>\<^verbatim>\<open>a + b\<close> on numbers\<close>

definition fadd :: "number \<Rightarrow> number \<Rightarrow> number" where
  "fadd a b = fl (a + b)"

text \<open>
  \<^verbatim>\<open>x.toFixed(2)\<close>: \<open>toFixed_n x\<close> is the integer \<open>n\<close> for which \<open>n / 100 - x\<close> is as
  close to zero as possible, the larger one when there are two. Its decimal digits, padded
  to three, get the point before the last two. From \<open>10\<^sup>2\<^sup>1\<close> on the result is that of
  \<^verbatim>\<open>String(x)\<close>, in exponent notation.
\<close>

definition digit_char :: "int \<Rightarrow> char" where
  "digit_char d = ''0123456789'' ! nat d"

function digits_of :: "int \<Rightarrow> string" where
  "digits_of n = (if n < 10 then [digit_char n] else digits_of (n div 10) @ [digit_char (n mod 10)])"
  by pat_completeness auto
termination
  by (relation "measure nat") auto

declare digits_of.simps [simp del]

definition toFixed_n :: "rat \<Rightarrow> int" where
  "toFixed_n x = \<lfloor>x * 100 + 1 / 2\<rfloor>"

definition fixed_digits :: "int \<Rightarrow> string" where
  "fixed_digits n =
     (let m = digits_of n;
          m = (if length m \<le> 2 then replicate (3 - length m) CHR ''0'' @ m else m);
          k = length m
      in take (k - 2) m @ ''.'' @ drop (k - 2) m)"

text \<open>\<^verbatim>\<open>+x.toFixed(2)\<close>: the string of \<open>toFixed\<close> converted back to a number\<close>

definition round2 :: "number \<Rightarrow> number" where
  "round2 x =
     (if x < 0 then (if 10 ^ 21 \<le> - x then x else - fl (of_int (toFixed_n (- x)) / 100))
      else if 10 ^ 21 \<le> x then x else fl (of_int (toFixed_n x) / 100))"

text \<open>
  \<^verbatim>\<open>parseFloat(s)\<close> for an unsigned decimal literal with no exponent: the longest prefix
  of digits, a point and digits; \<open>None\<close> is \<^verbatim>\<open>NaN\<close>. \<^verbatim>\<open>Number(s)\<close> on a string of
  digits is \<open>dec_val\<close>.
\<close>

definition digit_val :: "char \<Rightarrow> int" where
  "digit_val c = of_char c - 48"

definition dec_val :: "string \<Rightarrow> int" where
  "dec_val s = foldl (\<lambda>a c. 10 * a + digit_val c) 0 s"

definition parseFloat :: "string \<Rightarrow> number option" where
  "parseFloat s =
     (let ip = takeWhile is_digit s;
          r = dropWhile is_digit s;
          fp = (case r of [] \<Rightarrow> [] | c # t \<Rightarrow> if c = CHR ''.'' then takeWhile is_digit t else [])
      in if ip = [] \<and> fp = [] then None
         else Some (fl (of_int (dec_val (ip @ fp)) / 10 ^ length fp)))"

section \<open>Dates\<close>

text \<open>
  \<^verbatim>\<open>new Date(date + 'T00:00:00')\<close> for a \<open>date\<close> of the form \<^verbatim>\<open>dddd-dd-dd\<close>, as Node
  evaluates it: the result is \<open>None\<close> (an invalid date, whose getters give \<^verbatim>\<open>NaN\<close>)
  unless the month is 1 to 12 and the day 1 to 31; a day beyond the end of its month
  runs over into the next month. The value is the triple \<^verbatim>\<open>getFullYear()\<close>,
  \<^verbatim>\<open>getMonth()\<close>, \<^verbatim>\<open>getDate()\<close>, in a time zone that skips no calendar day.
\<close>

definition is_leap :: "int \<Rightarrow> bool" where
  "is_leap y = (y mod 4 = 0 \<and> (y mod 100 \<noteq> 0 \<or> y mod 400 = 0))"

definition days_in_month :: "int \<Rightarrow> int \<Rightarrow> int" where
  "days_in_month y m =
     (if m = 2 then (if is_leap y then 29 else 28)
      else if m = 4 \<or> m = 6 \<or> m = 9 \<or> m = 11 then 30 else 31)"

definition newDate :: "string \<Rightarrow> (int \<times> int \<times> int) option" where
  "newDate date =
     (let y = dec_val (take 4 date);
          m = dec_val (take 2 (drop 5 date));
          d = dec_val (take 2 (drop 8 date))
      in if m < 1 \<or> 12 < m \<or> d < 1 \<or> 31 < d then None
         else if d \<le> days_in_month y m then Some (y, m - 1, d)
         else Some (y, m, d - days_in_month y m))"

section \<open>parseFileName\<close>

record parsed =
  year :: "string option"
  description :: "string option"
  amount :: number
  isReimbursement :: bool
  isValid :: bool
  error :: "string option"

text \<open>
  The object every failing check returns, with its message (\<open>None\<close> is \<^verbatim>\<open>null\<close> or
  an absent key).
\<close>

definition invalid :: "string \<Rightarrow> parsed" where
  "invalid msg =
     \<lparr>year = None, description = None, amount = 0, isReimbursement = False,
      isValid = False, error = Some msg\<rparr>"

definition msg_format :: string where
  "msg_format = ''File name should have format '' @ [dq] @
     ''yyyy-mm-dd - description - $amount.ext'' @ [dq]"

definition msg_date :: "string \<Rightarrow> string" where
  "msg_date date = ''Date '' @ [dq] @ date @ [dq] @ '' should be yyyy-mm-dd format''"

definition msg_dollar :: "string \<Rightarrow> string" where
  "msg_dollar amountPart = ''Amount '' @ [dq] @ amountPart @ [dq] @ '' should start with $''"

definition msg_extension :: string where
  "msg_extension = ''File is missing extension (should end with .pdf, .jpg, etc.)''"

definition msg_amount :: "string \<Rightarrow> string" where
  "msg_amount amountPart =
     ''Amount '' @ [dq] @ amountPart @ [dq] @ '' should be a valid format like $50.00''"

definition msg_number :: "string \<Rightarrow> string" where
  "msg_number amountPart = ''Amount '' @ [dq] @ amountPart @ [dq] @ '' should be a valid number''"

text \<open>
  The date test of the source: the getters of the constructed date differ from the three
  numbers of the date string.
\<close>

definition date_differs :: "string \<Rightarrow> bool" where
  "date_differs date =
     (case (newDate date, map dec_val (split_js date ''-'')) of
        (Some (fullYear, month, day), yearNum # monthNum # dayNum # _) \<Rightarrow>
          fullYear \<noteq> yearNum \<or> month \<noteq> monthNum - 1 \<or> day \<noteq> dayNum
      | _ \<Rightarrow> True)"

text \<open>The amount token without its \<^verbatim>\<open>$\<close> and its extension\<close>

definition strip_amount :: "string \<Rightarrow> string" where
  "strip_amount amountPart =
     (let amountStr = drop 1 amountPart
      in if includes_str amountStr ''.reimbursed.'' then replace_end rx_reimbursed amountStr
         else replace_end rx_last_extension amountStr)"

definition parseFileName :: "string \<Rightarrow> parsed" where
  "parseFileName fileName =
     (let parts = split_js fileName '' - '' in
      if length parts \<noteq> 3 then invalid msg_format
      else
        let date = parts ! 0; descr = parts ! 1; amountPart = parts ! 2 in
        if \<not> rmatch rx_date date then invalid (msg_date date)
        else if date_differs date then invalid (msg_date date)
        else if amountPart = [] \<or> \<not> startsWith amountPart ''$'' then invalid (msg_dollar amountPart)
        else if \<not> test_end rx_extension amountPart then invalid msg_extension
        else
          let amountStr = strip_amount amountPart in
          if \<not> rmatch rx_amount amountStr then invalid (msg_amount amountPart)
          else
            case parseFloat amountStr of
              None \<Rightarrow> invalid (msg_number amountPart)
            | Some a \<Rightarrow>
                \<lparr>year = Some (split_js date ''-'' ! 0), description = Some descr, amount = a,
                 isReimbursement = includes_str fileName ''.reimbursed.'', isValid = True,
                 error = None\<rparr>)"

section \<open>getTotalsByYear\<close>

record category_data =
  expenses :: number
  reimbursements :: number
  count :: nat

record receipt =
  date :: string
  r_year :: string
  r_description :: string
  r_amount :: number
  isReimbursed :: bool
  category :: string

text \<open>
  The six accumulators of the function. The objects keyed by year are maps; the categories
  of a year are an association list in insertion order (JavaScript lists a name that is
  an integer before the others); an entry of \<open>invalidFiles\<close> is the pair of
  \<^verbatim>\<open>fileName\<close> and \<^verbatim>\<open>error\<close>.
\<close>

record totals =
  expensesByYear :: "string \<rightharpoonup> number"
  reimbursementsByYear :: "string \<rightharpoonup> number"
  receiptCounts :: "string \<rightharpoonup> nat"
  invalidFiles :: "(string \<times> string option) list"
  expensesByCategory :: "string \<rightharpoonup> (string \<times> category_data) list"
  validReceipts :: "receipt list"

definition init_totals :: totals where
  "init_totals =
     \<lparr>expensesByYear = Map.empty, reimbursementsByYear = Map.empty, receiptCounts = Map.empty,
      invalidFiles = [], expensesByCategory = Map.empty, validReceipts = []\<rparr>"

text \<open>\<^verbatim>\<open>!obj[key]\<close> on a number: the key is absent or its value is zero\<close>

definition falsy :: "number option \<Rightarrow> bool" where
  "falsy v = (case v of None \<Rightarrow> True | Some x \<Rightarrow> x = 0)"

text \<open>\<^verbatim>\<open>(description.trim().split(' ')[0] || 'uncategorized').toLowerCase()\<close>\<close>

definition category_of :: "string \<Rightarrow> string" where
  "category_of descr =
     toLowerCase (let w = split_js (trim descr) '' '' ! 0 in if w = [] then ''uncategorized'' else w)"

text \<open>The four steps of the body for an accepted receipt, in the order of the source\<close>

definition init_year :: "string \<Rightarrow> totals \<Rightarrow> totals" where
  "init_year y st =
     (if falsy (expensesByYear st y)
      then st\<lparr>expensesByYear := (expensesByYear st)(y \<mapsto> 0),
              reimbursementsByYear := (reimbursementsByYear st)(y \<mapsto> 0),
              receiptCounts := (receiptCounts st)(y \<mapsto> 0),
              expensesByCategory := (expensesByCategory st)(y \<mapsto> [])\<rparr>
      else st)"

text \<open>
  The categories of a year are the own properties of a plain object, which inherits the
  properties of \<^verbatim>\<open>Object.prototype\<close>. Of their names only \<^verbatim>\<open>constructor\<close> and
  \<^verbatim>\<open>__proto__\<close> are in lower case, as a category is; both have an object as value. So
  \<^verbatim>\<open>!expensesByCategory[year][category]\<close> holds when the category is no own property
  and neither of these two names, and for these two names the sums are written to the
  inherited object, which is no part of the result.
\<close>

definition inherited_key :: "string \<Rightarrow> bool" where
  "inherited_key k = (k = ''constructor'' \<or> k = ''__proto__'')"

definition write_category ::
  "string \<Rightarrow> string \<Rightarrow> (category_data \<Rightarrow> category_data) \<Rightarrow> totals \<Rightarrow> totals" where
  "write_category y c f st =
     (let cats = the (expensesByCategory st y)
      in case map_of cats c of
           None \<Rightarrow> st
         | Some d \<Rightarrow>
             st\<lparr>expensesByCategory := (expensesByCategory st)(y \<mapsto> AList.update c (f d) cats)\<rparr>)"

definition init_category :: "string \<Rightarrow> string \<Rightarrow> totals \<Rightarrow> totals" where
  "init_category y c st =
     (let cats = the (expensesByCategory st y)
      in if map_of cats c = None \<and> \<not> inherited_key c
         then st\<lparr>expensesByCategory := (expensesByCategory st)
                   (y \<mapsto> AList.update c \<lparr>expenses = 0, reimbursements = 0, count = 0\<rparr> cats)\<rparr>
         else st)"

definition add_expense :: "string \<Rightarrow> string \<Rightarrow> number \<Rightarrow> totals \<Rightarrow> totals" where
  "add_expense y c a st =
     write_category y c (\<lambda>d. d\<lparr>expenses := round2 (fadd (expenses d) a), count := count d + 1\<rparr>)
       (st\<lparr>expensesByYear :=
            (expensesByYear st)(y \<mapsto> round2 (fadd (the (expensesByYear st y)) a))\<rparr>)"

definition add_reimbursement :: "string \<Rightarrow> string \<Rightarrow> number \<Rightarrow> totals \<Rightarrow> totals" where
  "add_reimbursement y c a st =
     write_category y c (\<lambda>d. d\<lparr>reimbursements := round2 (fadd (reimbursements d) a)\<rparr>)
       (st\<lparr>reimbursementsByYear :=
            (reimbursementsByYear st)(y \<mapsto> round2 (fadd (the (reimbursementsByYear st y)) a))\<rparr>)"

definition count_receipt :: "string \<Rightarrow> totals \<Rightarrow> totals" where
  "count_receipt y st = st\<lparr>receiptCounts := (receiptCounts st)(y \<mapsto> the (receiptCounts st y) + 1)\<rparr>"

definition accept :: "string \<Rightarrow> parsed \<Rightarrow> totals \<Rightarrow> totals" where
  "accept fileName p st =
     (let y = the (year p); descr = the (description p); a = amount p; c = category_of descr;
          st = st\<lparr>validReceipts := validReceipts st @
                 [\<lparr>date = split_js fileName '' - '' ! 0, r_year = y, r_description = descr,
                   r_amount = a, isReimbursed = isReimbursement p, category = c\<rparr>]\<rparr>;
          st = init_year y st;
          st = init_category y c st;
          st = add_expense y c a st;
          st = (if isReimbursement p then add_reimbursement y c a st else st)
      in count_receipt y st)"

text \<open>The body of the loop over the directory entries\<close>

definition processFile :: "totals \<Rightarrow> string \<Rightarrow> totals" where
  "processFile st fileName =
     (if startsWith fileName ''.'' then st
      else
        let p = parseFileName fileName in
        if \<not> isValid p then st\<lparr>invalidFiles := invalidFiles st @ [(fileName, error p)]\<rparr>
        else if 0 < amount p then accept fileName p st
        else st)"

text \<open>
  The argument is the outcome of \<^verbatim>\<open>fs.readdirSync(directory)\<close>: the message of the
  error it throws, or the names it lists.
\<close>

definition getTotalsByYear :: "string + string list \<Rightarrow> string + totals" where
  "getTotalsByYear listing =
     (case listing of
        Inl message \<Rightarrow> Inl (''Cannot access directory: '' @ message)
      | Inr fileNames \<Rightarrow> Inr (foldl processFile init_totals fileNames))"

section \<open>calculateSummaryStats\<close>

text \<open>
  \<^verbatim>\<open>obj[key] || 0\<close>, for a key that is a year: a map holds the own properties of an
  object, and the names inherited from \<^verbatim>\<open>Object.prototype\<close> are no years.
\<close>

definition or0 :: "('a::zero) option \<Rightarrow> 'a" where
  "or0 v = (case v of None \<Rightarrow> 0 | Some x \<Rightarrow> x)"

text \<open>
  The part of the function that finds the most expensive year; the rates and averages it
  also returns are not modelled. \<^verbatim>\<open>years.reduce(f)\<close> with no initial value starts from
  the first element.
\<close>

record summary =
  mostExpensiveYear :: "string option"
  mostExpensiveYearAmount :: number
  mostExpensiveYearReceipts :: nat

definition pick_year :: "(string \<rightharpoonup> number) \<Rightarrow> string \<Rightarrow> string \<Rightarrow> string" where
  "pick_year ebY maxYear y = (if or0 (ebY maxYear) < or0 (ebY y) then y else maxYear)"

definition calculateSummaryStats ::
  "string list \<Rightarrow> (string \<rightharpoonup> number) \<Rightarrow> (string \<rightharpoonup> nat) \<Rightarrow> summary" where
  "calculateSummaryStats years ebY counts =
     (case years of
        [] \<Rightarrow> \<lparr>mostExpensiveYear = None, mostExpensiveYearAmount = 0, mostExpensiveYearReceipts = 0\<rparr>
      | y # ys \<Rightarrow>
          let m = foldl (pick_year ebY) y ys
          in \<lparr>mostExpensiveYear = Some m, mostExpensiveYearAmount = or0 (ebY m),
              mostExpensiveYearReceipts = or0 (counts m)\<rparr>)"

section \<open>buildYearlyResultObject\<close>

text \<open>
  \<^verbatim>\<open>String(x)\<close> for a number from \<open>10\<^sup>2\<^sup>1\<close> on: the digits \<open>s\<close>, as few as possible
  (\<open>k\<close> of them, at most 17), and the exponent \<open>n\<close> such that \<open>s \<times> 10\<^sup>n\<^sup>-\<^sup>k\<close> is rounded to
  \<open>x\<close>, the value nearest to \<open>x\<close> when several qualify; printed as \<^verbatim>\<open>d.ddde+XX\<close>. The
  argument is a double; for another number 17 digits are taken.
\<close>

definition shortest_candidates :: "rat \<Rightarrow> nat \<Rightarrow> (int \<times> nat) list" where
  "shortest_candidates x k =
     (let d = length (digits_of \<lfloor>x\<rfloor>)
      in filter (\<lambda>(s, n). 10 ^ (k - 1) \<le> s \<and> s < 10 ^ k \<and> fl (of_int s * 10 ^ (n - k)) = x)
           (concat (map (\<lambda>n. let q = \<lfloor>x / 10 ^ (n - k)\<rfloor> in [(q, n), (q + 1, n)])
              [d, d + 1])))"

definition nearer :: "rat \<Rightarrow> nat \<Rightarrow> int \<times> nat \<Rightarrow> int \<times> nat \<Rightarrow> int \<times> nat" where
  "nearer x k a b =
     (let da = \<bar>of_int (fst a) * 10 ^ (snd a - k) - x\<bar>;
          db = \<bar>of_int (fst b) * 10 ^ (snd b - k) - x\<bar>
      in if db < da \<or> db = da \<and> even (fst b) then b else a)"

definition exponent_notation :: "int \<Rightarrow> nat \<Rightarrow> nat \<Rightarrow> string" where
  "exponent_notation s k n =
     (let ds = digits_of s
      in (if k = 1 then ds else take 1 ds @ ''.'' @ drop 1 ds) @ ''e+'' @ digits_of (int n - 1))"

definition number_to_string :: "number \<Rightarrow> string" where
  "number_to_string x =
     (case find (\<lambda>k. shortest_candidates x k \<noteq> []) [1..<18] of
        None \<Rightarrow>
          (let d = length (digits_of \<lfloor>x\<rfloor>) in exponent_notation \<lfloor>x / 10 ^ (d - 17)\<rfloor> 17 d)
      | Some k \<Rightarrow>
          (case shortest_candidates x k of
             [] \<Rightarrow> []
           | c # cs \<Rightarrow> (case foldl (nearer x k) c cs of (s, n) \<Rightarrow> exponent_notation s k n)))"

text \<open>\<^verbatim>\<open>x.toFixed(2)\<close> and \<^verbatim>\<open>`$${x.toFixed(2)}`\<close>\<close>

definition toFixed2_abs :: "number \<Rightarrow> string" where
  "toFixed2_abs x = (if 10 ^ 21 \<le> x then number_to_string x else fixed_digits (toFixed_n x))"

definition toFixed2 :: "number \<Rightarrow> string" where
  "toFixed2 x = (if x < 0 then ''-'' @ toFixed2_abs (- x) else toFixed2_abs x)"

definition dollars :: "number \<Rightarrow> string" where
  "dollars x = ''$'' @ toFixed2 x"

record amounts_row =
  row_expenses :: string
  row_reimbursements :: string
  receipts :: nat

record year_row = amounts_row +
  byCategory :: "(string \<times> amounts_row) list option"

text \<open>
  \<^verbatim>\<open>Object.entries(cats).sort((a, b) => b[1].expenses - a[1].expenses)\<close>: a stable sort
  by descending expenses, each entry then formatted.
\<close>

definition category_rows :: "(string \<times> category_data) list \<Rightarrow> (string \<times> amounts_row) list" where
  "category_rows cats =
     map (\<lambda>(c, d). (c, \<lparr>row_expenses = dollars (expenses d),
                         row_reimbursements = dollars (reimbursements d), receipts = count d\<rparr>))
       (sort_key (\<lambda>(c, d). - expenses d) cats)"

record builder =
  result :: "string \<rightharpoonup> year_row"
  totalExpenses :: number
  totalReimbursements :: number
  totalReceipts :: nat

definition add_year ::
  "(string \<rightharpoonup> number) \<Rightarrow> (string \<rightharpoonup> number) \<Rightarrow> (string \<rightharpoonup> nat) \<Rightarrow>
   (string \<rightharpoonup> (string \<times> category_data) list) \<Rightarrow> builder \<Rightarrow> string \<Rightarrow> builder" where
  "add_year ebY rbY counts ebC b y =
     (let yearExpenses = or0 (ebY y); yearReimbursements = or0 (rbY y); yearReceipts = or0 (counts y)
      in \<lparr>result = (result b)(y \<mapsto>
             \<lparr>row_expenses = dollars yearExpenses, row_reimbursements = dollars yearReimbursements,
              receipts = yearReceipts, byCategory = map_option category_rows (ebC y)\<rparr>),
          totalExpenses = fadd (totalExpenses b) yearExpenses,
          totalReimbursements = fadd (totalReimbursements b) yearReimbursements,
          totalReceipts = totalReceipts b + yearReceipts\<rparr>)"

definition buildYearlyResultObject ::
  "string list \<Rightarrow> (string \<rightharpoonup> number) \<Rightarrow> (string \<rightharpoonup> number) \<Rightarrow> (string \<rightharpoonup> nat) \<Rightarrow>
   (string \<rightharpoonup> (string \<times> category_data) list) \<Rightarrow> (string \<rightharpoonup> year_row)" where
  "buildYearlyResultObject years ebY rbY counts ebC =
     (let b = foldl (add_year ebY rbY counts ebC)
                \<lparr>result = Map.empty, totalExpenses = 0, totalReimbursements = 0, totalReceipts = 0\<rparr>
                years
      in (result b)(''Total'' \<mapsto>
           \<lparr>row_expenses = dollars (totalExpenses b),
            row_reimbursements = dollars (totalReimbursements b),
            receipts = totalReceipts b, byCategory = None\<rparr>))"

section \<open>The checks of parseFileName, as the specification words them\<close>

text \<open>
  The language of a regular expression, against which the matcher is verified.
\<close>

inductive_set star :: "string set \<Rightarrow> string set" for A :: "string set" where
  star_nil: "[] \<in> star A"
| star_app: "u \<in> A \<Longrightarrow> v \<in> star A \<Longrightarrow> u @ v \<in> star A"

fun lang :: "rx \<Rightarrow> string set" where
  "lang Nul = {}"
| "lang Eps = {[]}"
| "lang (Cls p) = {[c] | c. p c}"
| "lang (Seq r s) = {u @ v | u v. u \<in> lang r \<and> v \<in> lang s}"
| "lang (Alt r s) = lang r \<union> lang s"
| "lang (Star r) = star (lang r)"

text \<open>The three segments of a file name\<close>

definition date_segment :: "string \<Rightarrow> string" where
  "date_segment fileName = split_js fileName '' - '' ! 0"

definition description_segment :: "string \<Rightarrow> string" where
  "description_segment fileName = split_js fileName '' - '' ! 1"

definition amount_token :: "string \<Rightarrow> string" where
  "amount_token fileName = split_js fileName '' - '' ! 2"

text \<open>
  A real calendar date: the month is 1 to 12 and the day exists in that month of that
  year.
\<close>

definition calendar_date :: "int \<Rightarrow> int \<Rightarrow> int \<Rightarrow> bool" where
  "calendar_date y m d = (1 \<le> m \<and> m \<le> 12 \<and> 1 \<le> d \<and> d \<le> days_in_month y m)"

text \<open>The six checks, each a condition on the file name alone\<close>

definition check_segments :: "string \<Rightarrow> bool" where
  "check_segments fileName = (length (split_js fileName '' - '') = 3)"

definition check_date_format :: "string \<Rightarrow> bool" where
  "check_date_format fileName = rmatch rx_date (date_segment fileName)"

definition check_real_date :: "string \<Rightarrow> bool" where
  "check_real_date fileName =
     (let date = date_segment fileName
      in calendar_date (dec_val (take 4 date)) (dec_val (take 2 (drop 5 date)))
           (dec_val (take 2 (drop 8 date))))"

definition check_dollar :: "string \<Rightarrow> bool" where
  "check_dollar fileName = (case amount_token fileName of [] \<Rightarrow> False | c # _ \<Rightarrow> c = CHR ''$'')"

definition check_extension :: "string \<Rightarrow> bool" where
  "check_extension fileName = test_end rx_extension (amount_token fileName)"

definition check_amount :: "string \<Rightarrow> bool" where
  "check_amount fileName = rmatch rx_amount (strip_amount (amount_token fileName))"

text \<open>
  What the checks decide, the first failing one first: the error object of that check, or
  the parsed record when all six pass.
\<close>

definition checked_result :: "string \<Rightarrow> parsed" where
  "checked_result fileName =
     (if \<not> check_segments fileName then invalid msg_format
      else if \<not> check_date_format fileName then invalid (msg_date (date_segment fileName))
      else if \<not> check_real_date fileName then invalid (msg_date (date_segment fileName))
      else if \<not> check_dollar fileName then invalid (msg_dollar (amount_token fileName))
      else if \<not> check_extension fileName then invalid msg_extension
      else if \<not> check_amount fileName then invalid (msg_amount (amount_token fileName))
      else \<lparr>year = Some (take 4 (date_segment fileName)),
            description = Some (description_segment fileName),
            amount = the (parseFloat (strip_amount (amount_token fileName))),
            isReimbursement = includes_str fileName ''.reimbursed.'',
            isValid = True, error = None\<rparr>)"

section \<open>Invariants of the aggregation\<close>

text \<open>The four objects keyed by year have the same keys.\<close>

definition same_years :: "totals \<Rightarrow> bool" where
  "same_years st =
     (dom (reimbursementsByYear st) = dom (expensesByYear st) \<and>
      dom (receiptCounts st) = dom (expensesByYear st) \<and>
      dom (expensesByCategory st) = dom (expensesByYear st))"

text \<open>A year's reimbursements are 0 unless one of its receipts is reimbursed.\<close>

definition zero_unless_reimbursed :: "totals \<Rightarrow> bool" where
  "zero_unless_reimbursed st =
     (\<forall>y \<in> dom (reimbursementsByYear st).
        reimbursementsByYear st y = Some 0 \<or>
        (\<exists>rc \<in> set (validReceipts st). r_year rc = y \<and> isReimbursed rc))"

text \<open>
  The running sums an accepted receipt of year \<open>y\<close> and category \<open>c\<close> is added to: those
  stored, or zero where the receipt is the first of its year or of its category.
\<close>

definition prev_expenses :: "totals \<Rightarrow> string \<Rightarrow> number" where
  "prev_expenses st y = (if falsy (expensesByYear st y) then 0 else the (expensesByYear st y))"

definition prev_reimbursements :: "totals \<Rightarrow> string \<Rightarrow> number" where
  "prev_reimbursements st y =
     (if falsy (expensesByYear st y) then 0 else the (reimbursementsByYear st y))"

definition prev_count :: "totals \<Rightarrow> string \<Rightarrow> nat" where
  "prev_count st y = (if falsy (expensesByYear st y) then 0 else the (receiptCounts st y))"

definition prev_categories :: "totals \<Rightarrow> string \<Rightarrow> (string \<times> category_data) list" where
  "prev_categories st y = (if falsy (expensesByYear st y) then [] else the (expensesByCategory st y))"

definition prev_category :: "totals \<Rightarrow> string \<Rightarrow> string \<Rightarrow> category_data" where
  "prev_category st y c =
     (case map_of (prev_categories st y) c of
        None \<Rightarrow> \<lparr>expenses = 0, reimbursements = 0, count = 0\<rparr> | Some d \<Rightarrow> d)"

text \<open>A listing of one receipt, not reimbursed\<close>

definition one_receipt :: "string list" where
  "one_receipt = [''2021-01-01 - Josh doctor - $50.00.pdf'']"

text \<open>A receipt of 10 cents, and a reimbursed one of 20 cents in another category\<close>

definition dime_receipt :: string where
  "dime_receipt = ''2021-01-01 - Josh doctor - $0.10.pdf''"

definition twenty_cents_receipt :: string where
  "twenty_cents_receipt = ''2021-01-02 - jane b - $0.20.reimbursed.pdf''"

section \<open>Amounts in whole cents\<close>

text \<open>
  The number of whole cents of a number: the integer that \<^verbatim>\<open>toFixed(2)\<close> prints, without
  the point.
\<close>

definition cents :: "number \<Rightarrow> int" where
  "cents x = toFixed_n x"

text \<open>
  A numeric part with no superfluous leading zero: it does not start with \<^verbatim>\<open>0\<close>, or
  that zero is the whole integer part.
\<close>

definition canonical_amount :: "string \<Rightarrow> bool" where
  "canonical_amount s = (take 1 s \<noteq> ''0'' \<or> take 2 s = ''0.'')"

text \<open>The receipts of a year and of a category of a year, and the cents of a list of receipts\<close>

definition total_cents :: "receipt list \<Rightarrow> int" where
  "total_cents rs = (\<Sum>rc\<leftarrow>rs. cents (r_amount rc))"

definition year_receipts :: "receipt list \<Rightarrow> string \<Rightarrow> receipt list" where
  "year_receipts rs y = filter (\<lambda>rc. r_year rc = y) rs"

definition category_receipts :: "receipt list \<Rightarrow> string \<Rightarrow> string \<Rightarrow> receipt list" where
  "category_receipts rs y c = filter (\<lambda>rc. category rc = c) (year_receipts rs y)"

text \<open>
  What the aggregation keeps while the receipts total at most \<open>10\<^sup>1\<^sup>5\<close> cents: every
  accepted amount is the number nearest to a positive count of cents, every yearly sum is
  the number nearest to the cents of the year's receipts, and so is every category sum.
\<close>

definition amounts_in_cents :: "receipt list \<Rightarrow> bool" where
  "amounts_in_cents rs = (\<forall>rc \<in> set rs. \<exists>n. 0 < n \<and> r_amount rc = fl (of_int n / 100))"

definition exact_categories :: "receipt list \<Rightarrow> string \<Rightarrow> (string \<times> category_data) list \<Rightarrow> bool" where
  "exact_categories rs y cats =
     (distinct (map fst cats) \<and>
      (\<forall>c. map_option expenses (map_of cats c) =
         (if inherited_key c \<or> category_receipts rs y c = [] then None
          else Some (fl (of_int (total_cents (category_receipts rs y c)) / 100)))))"

definition exact_sums :: "totals \<Rightarrow> bool" where
  "exact_sums st =
     ((\<forall>y. expensesByYear st y =
         (if year_receipts (validReceipts st) y = [] then None
          else Some (fl (of_int (total_cents (year_receipts (validReceipts st) y)) / 100)))) \<and>
      (\<forall>y cats. expensesByCategory st y = Some cats \<longrightarrow>
         exact_categories (validReceipts st) y cats))"

text \<open>
  The two sum properties as the specification states them, on the stored numbers: with the
  exact sum of the values, and with the values added up as JavaScript adds them, the years
  taken in the order \<open>years\<close> and the categories in insertion order.
\<close>

definition sum_invariant :: "totals \<Rightarrow> bool" where
  "sum_invariant r =
     ((\<Sum>y \<in> dom (expensesByYear r). the (expensesByYear r y)) =
      (\<Sum>rc\<leftarrow>validReceipts r. r_amount rc))"

definition sum_invariant_added :: "totals \<Rightarrow> string list \<Rightarrow> bool" where
  "sum_invariant_added r years =
     (foldl fadd 0 (map (\<lambda>y. the (expensesByYear r y)) years) =
      foldl fadd 0 (map r_amount (validReceipts r)))"

definition category_invariant :: "totals \<Rightarrow> string \<Rightarrow> bool" where
  "category_invariant r y =
     ((\<Sum>(c, d)\<leftarrow>the (expensesByCategory r y). expenses d) = the (expensesByYear r y))"

definition category_invariant_added :: "totals \<Rightarrow> string \<Rightarrow> bool" where
  "category_invariant_added r y =
     (foldl fadd 0 (map (\<lambda>(c, d). expenses d) (the (expensesByCategory r y))) =
      the (expensesByYear r y))"

text \<open>The result for the two small receipts\<close>

definition thirty_cents :: totals where
  "thirty_cents = foldl processFile init_totals [dime_receipt, twenty_cents_receipt]"

section \<open>The matcher decides the language\<close>

lemma lang_SeqI: "u \<in> lang r \<Longrightarrow> v \<in> lang s \<Longrightarrow> u @ v \<in> lang (Seq r s)"
  by auto

lemma nullable_lang: "nullable r \<longleftrightarrow> [] \<in> lang r"
  by (induction r) (auto intro: star.star_nil)

lemma star_cons_split:
  assumes "w \<in> star A" and "w = c # s"
  shows "\<exists>u v. s = u @ v \<and> c # u \<in> A \<and> v \<in> star A"
  using assms
proof (induction arbitrary: s rule: star.induct)
  case star_nil
  then show ?case by simp
next
  case (star_app u v)
  show ?case
  proof (cases u)
    case Nil
    with star_app show ?thesis by simp
  next
    case (Cons a u')
    with star_app.prems have "a = c" and "s = u' @ v" by simp_all
    with Cons star_app.hyps show ?thesis by blast
  qed
qed

lemma star_cons_iff:
  "c # s \<in> star A \<longleftrightarrow> (\<exists>u v. s = u @ v \<and> c # u \<in> A \<and> v \<in> star A)"
proof
  assume "c # s \<in> star A"
  then show "\<exists>u v. s = u @ v \<and> c # u \<in> A \<and> v \<in> star A"
    by (rule star_cons_split) simp
next
  assume "\<exists>u v. s = u @ v \<and> c # u \<in> A \<and> v \<in> star A"
  then obtain u v where "s = u @ v" "c # u \<in> A" "v \<in> star A" by blast
  then show "c # s \<in> star A"
    using star.star_app [of "c # u" A v] by simp
qed

lemma deriv_lang: "s \<in> lang (deriv c r) \<longleftrightarrow> c # s \<in> lang r"
proof (induction r arbitrary: s)
  case (Seq r1 r2)
  show ?case
  proof
    assume "s \<in> lang (deriv c (Seq r1 r2))"
    then consider (a) u v where "s = u @ v" "u \<in> lang (deriv c r1)" "v \<in> lang r2"
      | (b) "nullable r1" "s \<in> lang (deriv c r2)"
      by (auto split: if_splits)
    then show "c # s \<in> lang (Seq r1 r2)"
    proof cases
      case a
      then have "c # u \<in> lang r1" using Seq.IH(1) by simp
      with a have "(c # u) @ v \<in> lang (Seq r1 r2)" by (intro lang_SeqI)
      with a show ?thesis by simp
    next
      case b
      then have "[] \<in> lang r1" "c # s \<in> lang r2" using Seq.IH(2) nullable_lang by simp_all
      then have "[] @ (c # s) \<in> lang (Seq r1 r2)" by (intro lang_SeqI)
      then show ?thesis by simp
    qed
  next
    assume "c # s \<in> lang (Seq r1 r2)"
    then obtain u v where uv: "c # s = u @ v" "u \<in> lang r1" "v \<in> lang r2" by auto
    show "s \<in> lang (deriv c (Seq r1 r2))"
    proof (cases u)
      case Nil
      with uv have "nullable r1" "s \<in> lang (deriv c r2)"
        using Seq.IH(2) nullable_lang by simp_all
      then show ?thesis by simp
    next
      case (Cons a u')
      with uv have "u' \<in> lang (deriv c r1)" "s = u' @ v" using Seq.IH(1) by simp_all
      with uv(3) show ?thesis by auto
    qed
  qed
next
  case (Star r)
  show ?case
    using Star.IH by (auto simp: star_cons_iff)
qed auto

lemma rmatch_lang: "rmatch r s \<longleftrightarrow> s \<in> lang r"
  by (induction s arbitrary: r) (simp_all add: nullable_lang deriv_lang)

lemma star_cls: "s \<in> star {[c] | c. p c} \<longleftrightarrow> (\<forall>c \<in> set s. p c)"
proof
  assume "s \<in> star {[c] | c. p c}"
  then show "\<forall>c \<in> set s. p c"
    by (induction rule: star.induct) auto
next
  assume "\<forall>c \<in> set s. p c"
  then show "s \<in> star {[c] | c. p c}"
  proof (induction s)
    case Nil
    show ?case by (rule star.star_nil)
  next
    case (Cons a s)
    then have "[a] \<in> {[c] | c. p c}" "s \<in> star {[c] | c. p c}" by auto
    then have "[a] @ s \<in> star {[c] | c. p c}" by (rule star.star_app)
    then show ?case by simp
  qed
qed

lemma rmatch_Eps: "rmatch Eps s \<longleftrightarrow> s = []"
  by (simp add: rmatch_lang)

lemma rmatch_Cls: "rmatch (Cls p) s \<longleftrightarrow> (\<exists>c. s = [c] \<and> p c)"
  by (auto simp: rmatch_lang)

lemma rmatch_Seq_Eps: "rmatch (Seq Eps r) s \<longleftrightarrow> rmatch r s"
  by (simp add: rmatch_lang)

lemma rmatch_Seq_Nul: "\<not> rmatch (Seq Nul r) s"
  by (simp add: rmatch_lang)

lemma rmatch_Seq_Cls: "rmatch (Seq (Cls p) r) s \<longleftrightarrow> (\<exists>c t. s = c # t \<and> p c \<and> rmatch r t)"
  by (cases s) (simp_all add: rmatch_Seq_Eps rmatch_Seq_Nul)

lemma rmatch_Alt: "rmatch (Alt r r') s \<longleftrightarrow> rmatch r s \<or> rmatch r' s"
  by (simp add: rmatch_lang)

lemma rmatch_Seq: "rmatch (Seq r r') s \<longleftrightarrow> (\<exists>u v. s = u @ v \<and> rmatch r u \<and> rmatch r' v)"
  by (simp add: rmatch_lang)

lemma rmatch_Star_Cls: "rmatch (Star (Cls p)) s \<longleftrightarrow> (\<forall>c \<in> set s. p c)"
  by (simp add: rmatch_lang star_cls)

lemma rmatch_rep_Cls:
  "rmatch (rep n (Cls p)) s \<longleftrightarrow> length s = n \<and> (\<forall>c \<in> set s. p c)"
proof (induction n arbitrary: s)
  case 0
  show ?case by (auto simp: rmatch_Eps)
next
  case (Suc n)
  show ?case by (cases s) (auto simp: rmatch_Seq_Eps rmatch_Seq_Nul Suc.IH)
qed

lemma rmatch_plus_Cls:
  "rmatch (rplus (Cls p)) s \<longleftrightarrow> s \<noteq> [] \<and> (\<forall>c \<in> set s. p c)"
  by (cases s) (simp_all add: rplus_def rmatch_Seq_Eps rmatch_Seq_Nul rmatch_Star_Cls)

lemma rmatch_lit_Seq: "rmatch (Seq (lit a) r) s \<longleftrightarrow> (\<exists>t. s = a # t \<and> rmatch r t)"
  by (auto simp: lit_def rmatch_Seq_Cls)

lemma rmatch_date:
  "rmatch rx_date s \<longleftrightarrow>
     (\<exists>y m d. s = y @ CHR ''-'' # m @ CHR ''-'' # d \<and> length y = 4 \<and> length m = 2 \<and>
        length d = 2 \<and> (\<forall>c \<in> set (y @ m @ d). is_digit c))"
  unfolding rx_date_def rmatch_Seq [of "rep _ _"] rmatch_lit_Seq rmatch_rep_Cls
  by (simp add: ball_Un) blast

lemma rmatch_amount:
  "rmatch rx_amount s \<longleftrightarrow>
     (\<exists>ds fs. s = ds @ CHR ''.'' # fs \<and> ds \<noteq> [] \<and> length fs = 2 \<and>
        (\<forall>c \<in> set (ds @ fs). is_digit c))"
  unfolding rx_amount_def rmatch_Seq [of "rplus _"] rmatch_lit_Seq rmatch_rep_Cls rmatch_plus_Cls
  by (simp add: ball_Un) blast

section \<open>Properties of parseFileName\<close>

lemma split_from_skip:
  "a \<notin> set u \<Longrightarrow> split_from [a] acc (u @ v) = split_from [a] (rev u @ acc) v"
  by (induction u arbitrary: acc) auto

lemma split_from_sep: "split_from [a] acc (a # v) = rev acc # split_from [a] [] v"
  by simp

lemma digit_not_dash: "is_digit c \<Longrightarrow> c \<noteq> CHR ''-''"
  by (auto simp: is_digit_def)

lemma digit_not_dot: "is_digit c \<Longrightarrow> c \<noteq> CHR ''.''"
  by (auto simp: is_digit_def)

lemma split_date:
  assumes "\<forall>c \<in> set (y @ m @ d). is_digit c"
  shows "split_js (y @ CHR ''-'' # m @ CHR ''-'' # d) ''-'' = [y, m, d]"
proof -
  have ny: "CHR ''-'' \<notin> set y" and nm: "CHR ''-'' \<notin> set m" and nd: "CHR ''-'' \<notin> set d"
    using assms digit_not_dash by auto
  have "split_from ''-'' [] (d @ []) = [d]"
    using split_from_skip [OF nd, of "[]" "[]"] by simp
  then have d: "split_from ''-'' [] d = [d]" by simp
  have "split_from ''-'' [] (m @ CHR ''-'' # d) = [m, d]"
    using split_from_skip [OF nm, of "[]" "CHR ''-'' # d"] d by simp
  then show ?thesis
    using split_from_skip [OF ny, of "[]" "CHR ''-'' # m @ CHR ''-'' # d"]
    by (simp add: split_js_def)
qed

lemma days_in_month_le: "days_in_month y m \<le> 31"
  by (simp add: days_in_month_def)

lemma date_differs_iff:
  assumes "rmatch rx_date dt"
  shows "date_differs dt \<longleftrightarrow>
    \<not> calendar_date (dec_val (take 4 dt)) (dec_val (take 2 (drop 5 dt)))
        (dec_val (take 2 (drop 8 dt)))"
proof -
  from assms obtain y m d where dt: "dt = y @ CHR ''-'' # m @ CHR ''-'' # d"
    and len: "length y = 4" "length m = 2" "length d = 2"
    and dig: "\<forall>c \<in> set (y @ m @ d). is_digit c"
    unfolding rmatch_date by blast
  have parts: "take 4 dt = y" "take 2 (drop 5 dt) = m" "take 2 (drop 8 dt) = d"
    using len by (simp_all add: dt)
  have sp: "split_js dt ''-'' = [y, m, d]"
    unfolding dt using dig by (rule split_date)
  show ?thesis
    unfolding date_differs_def newDate_def parts sp Let_def calendar_date_def
    using days_in_month_le [of "dec_val y" "dec_val m"] by auto
qed

lemma split_date_year:
  assumes "rmatch rx_date dt"
  shows "split_js dt ''-'' ! 0 = take 4 dt"
proof -
  from assms obtain y m d where dt: "dt = y @ CHR ''-'' # m @ CHR ''-'' # d"
    and len: "length y = 4" and dig: "\<forall>c \<in> set (y @ m @ d). is_digit c"
    unfolding rmatch_date by blast
  have "split_js dt ''-'' = [y, m, d]"
    unfolding dt using dig by (rule split_date)
  then show ?thesis using len by (simp add: dt)
qed

lemma parseFloat_amount:
  assumes "ds \<noteq> []" "\<forall>c \<in> set (ds @ fs). is_digit c"
  shows "parseFloat (ds @ CHR ''.'' # fs) = Some (fl (of_int (dec_val (ds @ fs)) / 10 ^ length fs))"
proof -
  have "takeWhile is_digit (ds @ CHR ''.'' # fs) = ds"
    using assms by (simp add: is_digit_def)
  moreover have "dropWhile is_digit (ds @ CHR ''.'' # fs) = CHR ''.'' # fs"
    using assms by (simp add: is_digit_def)
  moreover have "takeWhile is_digit fs = fs"
    using assms by simp
  ultimately show ?thesis
    unfolding parseFloat_def Let_def using assms(1) by (simp del: takeWhile_eq_all_conv)
qed

lemma parseFloat_defined: "rmatch rx_amount s \<Longrightarrow> \<exists>a. parseFloat s = Some a"
  unfolding rmatch_amount using parseFloat_amount by blast

lemma startsWith_dollar:
  "(amountPart = [] \<or> \<not> startsWith amountPart ''$'') \<longleftrightarrow>
     \<not> (case amountPart of [] \<Rightarrow> False | c # _ \<Rightarrow> c = CHR ''$'')"
  by (cases amountPart) (simp_all add: startsWith_def)

lemma parseFileName_checked: "parseFileName fileName = checked_result fileName"
proof -
  have valid: "rmatch rx_amount s \<Longrightarrow>
      (case parseFloat s of None \<Rightarrow> invalid msg | Some a \<Rightarrow> f a) = f (the (parseFloat s))"
    for s msg and f :: "number \<Rightarrow> parsed"
    using parseFloat_defined [of s] by auto
  show ?thesis
    unfolding parseFileName_def checked_result_def Let_def check_segments_def
      check_date_format_def check_real_date_def check_dollar_def check_extension_def
      check_amount_def date_segment_def description_segment_def amount_token_def
    by (simp add: date_differs_iff split_date_year startsWith_dollar valid)
qed

text \<open>
  C1: for every file name, \<open>parseFileName\<close> applies its six checks in a fixed order:
  three segments around two separators, the date pattern, a real calendar date, the
  leading \<^verbatim>\<open>$\<close>, the extension pattern, the amount pattern. Its result is that of
  \<open>checked_result\<close>, which returns the error of the first check that fails without
  looking at the later ones, and it is valid exactly when all six checks pass. The
  \<^verbatim>\<open>isNaN\<close> test that follows the sixth check never fails.
\<close>

theorem parseFileName_check_order:
  "parseFileName fileName = checked_result fileName \<and>
   (isValid (parseFileName fileName) \<longleftrightarrow>
      check_segments fileName \<and> check_date_format fileName \<and> check_real_date fileName \<and>
      check_dollar fileName \<and> check_extension fileName \<and> check_amount fileName)"
proof -
  have "isValid (checked_result fileName) \<longleftrightarrow>
      check_segments fileName \<and> check_date_format fileName \<and> check_real_date fileName \<and>
      check_dollar fileName \<and> check_extension fileName \<and> check_amount fileName"
    by (simp add: checked_result_def invalid_def)
  then show ?thesis by (simp add: parseFileName_checked)
qed

text \<open>
  The file name \<^verbatim>\<open>2021-02-30 - x - 50.00\<close> fails the third, the fourth and the fifth
  check; the error returned is that of the third.
\<close>

theorem parseFileName_check_order_witness:
  "\<not> check_dollar ''2021-02-30 - x - 50.00'' \<and> \<not> check_extension ''2021-02-30 - x - 50.00'' \<and>
   parseFileName ''2021-02-30 - x - 50.00'' = invalid (msg_date ''2021-02-30'') \<and>
   \<not> isValid (parseFileName ''2021-02-30 - x - 50.00'')"
proof -
  have a: "checked_result ''2021-02-30 - x - 50.00'' = invalid (msg_date ''2021-02-30'')"
    by code_simp
  have b: "\<not> check_dollar ''2021-02-30 - x - 50.00''"
    by code_simp
  have c: "\<not> check_extension ''2021-02-30 - x - 50.00''"
    by code_simp
  show ?thesis
    using parseFileName_check_order [of "''2021-02-30 - x - 50.00''"] a b c
    by (simp add: invalid_def)
qed

text \<open>
  C9: whenever \<open>parseFileName\<close> returns a record that is not valid, its year is null,
  its amount is 0 and its reimbursement flag is false.
\<close>

theorem invalid_parse_carries_no_data:
  "\<not> isValid (parseFileName fileName) \<Longrightarrow>
   year (parseFileName fileName) = None \<and> amount (parseFileName fileName) = 0 \<and>
   \<not> isReimbursement (parseFileName fileName)"
  by (auto simp: parseFileName_def Let_def invalid_def split: option.splits if_splits)

theorem invalid_parse_carries_no_data_witness:
  "\<not> isValid (parseFileName ''2021-01-10 - x - $50,00.reimbursed.pdf'') \<and>
   year (parseFileName ''2021-01-10 - x - $50,00.reimbursed.pdf'') = None \<and>
   amount (parseFileName ''2021-01-10 - x - $50,00.reimbursed.pdf'') = 0 \<and>
   \<not> isReimbursement (parseFileName ''2021-01-10 - x - $50,00.reimbursed.pdf'')"
proof -
  have h: "\<not> isValid (parseFileName ''2021-01-10 - x - $50,00.reimbursed.pdf'')"
    by code_simp
  show ?thesis
    using invalid_parse_carries_no_data [OF h] h by simp
qed

section \<open>Properties of getTotalsByYear\<close>

lemma category_data_updates:
  "d\<lparr>expenses := e, count := k\<rparr> = \<lparr>expenses = e, reimbursements = reimbursements d, count = k\<rparr>"
  "d\<lparr>reimbursements := r\<rparr> = \<lparr>expenses = expenses d, reimbursements = r, count = count d\<rparr>"
  by (cases d, simp)+

lemma accept_eq:
  "accept fileName p st =
     st\<lparr>validReceipts := validReceipts st @
          [\<lparr>date = split_js fileName '' - '' ! 0, r_year = the (year p),
            r_description = the (description p), r_amount = amount p,
            isReimbursed = isReimbursement p, category = category_of (the (description p))\<rparr>],
        expensesByYear := (expensesByYear st)
          (the (year p) \<mapsto> round2 (fadd (prev_expenses st (the (year p))) (amount p))),
        reimbursementsByYear :=
          (if isReimbursement p
           then (reimbursementsByYear st)
             (the (year p) \<mapsto> round2 (fadd (prev_reimbursements st (the (year p))) (amount p)))
           else if falsy (expensesByYear st (the (year p)))
             then (reimbursementsByYear st)(the (year p) \<mapsto> 0)
             else reimbursementsByYear st),
        receiptCounts := (receiptCounts st)(the (year p) \<mapsto> prev_count st (the (year p)) + 1),
        expensesByCategory :=
          (if map_of (prev_categories st (the (year p))) (category_of (the (description p))) = None \<and>
              inherited_key (category_of (the (description p)))
           then if falsy (expensesByYear st (the (year p)))
             then (expensesByCategory st)(the (year p) \<mapsto> [])
             else expensesByCategory st
           else (expensesByCategory st)
             (the (year p) \<mapsto>
                AList.update (category_of (the (description p)))
                  \<lparr>expenses = round2 (fadd (expenses (prev_category st (the (year p))
                       (category_of (the (description p))))) (amount p)),
                   reimbursements =
                     (if isReimbursement p
                      then round2 (fadd (reimbursements (prev_category st (the (year p))
                        (category_of (the (description p))))) (amount p))
                      else reimbursements (prev_category st (the (year p))
                        (category_of (the (description p))))),
                   count = count (prev_category st (the (year p))
                        (category_of (the (description p)))) + 1\<rparr>
                  (prev_categories st (the (year p)))))\<rparr>"
proof -
  define y where "y = the (year p)"
  define c where "c = category_of (the (description p))"
  obtain E R N I C V where st: "st = \<lparr>expensesByYear = E, reimbursementsByYear = R,
      receiptCounts = N, invalidFiles = I, expensesByCategory = C, validReceipts = V\<rparr>"
    by (cases st) simp
  show ?thesis
    unfolding y_def [symmetric] c_def [symmetric] st
    by (cases "falsy (E y)"; cases "inherited_key c";
        cases "map_of (if falsy (E y) then [] else the (C y)) c")
      (simp_all add: category_data_updates accept_def Let_def init_year_def init_category_def
        add_expense_def add_reimbursement_def count_receipt_def write_category_def
        prev_expenses_def prev_reimbursements_def prev_count_def prev_categories_def
        prev_category_def y_def [symmetric] c_def [symmetric] AList.update_conv')
qed

lemma falsy_dom: "\<not> falsy (m y) \<Longrightarrow> y \<in> dom m"
  by (auto simp: falsy_def split: option.splits)

lemma accept_same_years:
  assumes "same_years st"
  shows "same_years (accept fileName p st)"
proof (cases "falsy (expensesByYear st (the (year p)))")
  case True
  then show ?thesis
    using assms unfolding accept_eq same_years_def by simp
next
  case False
  then have "the (year p) \<in> dom (expensesByYear st)" by (rule falsy_dom)
  then show ?thesis
    using assms False unfolding accept_eq same_years_def by auto
qed

lemma accept_zero_unless_reimbursed:
  assumes "zero_unless_reimbursed st"
  shows "zero_unless_reimbursed (accept fileName p st)"
proof -
  let ?y = "the (year p)"
  let ?st' = "accept fileName p st"
  have vr: "set (validReceipts ?st') \<supseteq> set (validReceipts st)"
    unfolding accept_eq by auto
  have other: "reimbursementsByYear ?st' z = reimbursementsByYear st z" if "z \<noteq> ?y" for z
    using that
    unfolding accept_eq by simp
  have this_year: "reimbursementsByYear ?st' ?y = Some 0 \<or>
      reimbursementsByYear ?st' ?y = reimbursementsByYear st ?y \<or>
      (\<exists>rc \<in> set (validReceipts ?st'). r_year rc = ?y \<and> isReimbursed rc)"
    unfolding accept_eq by simp
  show ?thesis
    unfolding zero_unless_reimbursed_def
  proof
    fix z assume z: "z \<in> dom (reimbursementsByYear ?st')"
    show "reimbursementsByYear ?st' z = Some 0 \<or>
        (\<exists>rc \<in> set (validReceipts ?st'). r_year rc = z \<and> isReimbursed rc)"
    proof (cases "z = ?y")
      case False
      with z other have "z \<in> dom (reimbursementsByYear st)" by (simp add: dom_def)
      with assms have "reimbursementsByYear st z = Some 0 \<or>
          (\<exists>rc \<in> set (validReceipts st). r_year rc = z \<and> isReimbursed rc)"
        by (simp add: zero_unless_reimbursed_def)
      with vr other [OF False] show ?thesis by auto
    next
      case True
      from this_year consider "reimbursementsByYear ?st' ?y = Some 0"
        | "reimbursementsByYear ?st' ?y = reimbursementsByYear st ?y"
        | "\<exists>rc \<in> set (validReceipts ?st'). r_year rc = ?y \<and> isReimbursed rc"
        by blast
      then show ?thesis
      proof cases
        case 2
        with z True have "?y \<in> dom (reimbursementsByYear st)" by (simp add: dom_def)
        with assms have "reimbursementsByYear st ?y = Some 0 \<or>
            (\<exists>rc \<in> set (validReceipts st). r_year rc = ?y \<and> isReimbursed rc)"
          by (simp add: zero_unless_reimbursed_def)
        with vr 2 True show ?thesis by auto
      qed (simp_all add: True)
    qed
  qed
qed

lemma processFile_cases:
  "processFile st fileName = st \<or>
   processFile st fileName = st\<lparr>invalidFiles := invalidFiles st @ [(fileName, error (parseFileName fileName))]\<rparr> \<or>
   processFile st fileName = accept fileName (parseFileName fileName) st"
  by (simp add: processFile_def Let_def)

lemma processFile_same_years:
  assumes "same_years st"
  shows "same_years (processFile st fileName)"
proof -
  consider (skip) "processFile st fileName = st"
    | (bad) "processFile st fileName =
        st\<lparr>invalidFiles := invalidFiles st @ [(fileName, error (parseFileName fileName))]\<rparr>"
    | (good) "processFile st fileName = accept fileName (parseFileName fileName) st"
    using processFile_cases by blast
  then show ?thesis
  proof cases
    case skip
    with assms show ?thesis by simp
  next
    case bad
    with assms show ?thesis by (simp add: same_years_def)
  next
    case good
    with accept_same_years [OF assms] show ?thesis by simp
  qed
qed

lemma processFile_zero_unless_reimbursed:
  assumes "zero_unless_reimbursed st"
  shows "zero_unless_reimbursed (processFile st fileName)"
proof -
  consider (skip) "processFile st fileName = st"
    | (bad) "processFile st fileName =
        st\<lparr>invalidFiles := invalidFiles st @ [(fileName, error (parseFileName fileName))]\<rparr>"
    | (good) "processFile st fileName = accept fileName (parseFileName fileName) st"
    using processFile_cases by blast
  then show ?thesis
  proof cases
    case skip
    with assms show ?thesis by simp
  next
    case bad
    with assms show ?thesis by (simp add: zero_unless_reimbursed_def)
  next
    case good
    with accept_zero_unless_reimbursed [OF assms] show ?thesis by simp
  qed
qed

lemma foldl_invariant:
  assumes "P s" and "\<And>s x. P s \<Longrightarrow> P (f s x)"
  shows "P (foldl f s xs)"
  using assms(1) by (induction xs arbitrary: s) (simp_all add: assms(2))

text \<open>
  C8: a directory entry whose file name parses as valid with an amount that is not above 0
  leaves every accumulator as it was: no aggregate changes, no receipt is stored and
  \<open>invalidFiles\<close> gets no entry. The result of \<open>getTotalsByYear\<close> is the one for the
  listing without that entry.
\<close>

theorem nonpositive_amount_dropped:
  assumes "isValid (parseFileName fileName)" and "amount (parseFileName fileName) \<le> 0"
  shows "processFile st fileName = st \<and>
         getTotalsByYear (Inr (before @ fileName # after)) = getTotalsByYear (Inr (before @ after))"
proof -
  have "processFile s fileName = s" for s
    using assms by (simp add: processFile_def Let_def)
  then show ?thesis by (simp add: getTotalsByYear_def)
qed

theorem nonpositive_amount_dropped_witness:
  "isValid (parseFileName ''2021-01-01 - x - $0.00.pdf'') \<and>
   amount (parseFileName ''2021-01-01 - x - $0.00.pdf'') \<le> 0 \<and>
   processFile init_totals ''2021-01-01 - x - $0.00.pdf'' = init_totals \<and>
   getTotalsByYear (Inr [''2021-01-01 - x - $0.00.pdf'']) = Inr init_totals"
proof -
  have v: "isValid (parseFileName ''2021-01-01 - x - $0.00.pdf'')"
    by code_simp
  have z: "amount (parseFileName ''2021-01-01 - x - $0.00.pdf'') \<le> 0"
    by code_simp
  have e: "getTotalsByYear (Inr []) = Inr init_totals"
    by (simp add: getTotalsByYear_def)
  show ?thesis
    using nonpositive_amount_dropped [OF v z, of init_totals "[]" "[]"] v z e by simp
qed

text \<open>
  C10: in the result of \<open>getTotalsByYear\<close> the objects \<open>expensesByYear\<close>,
  \<open>reimbursementsByYear\<close>, \<open>receiptCounts\<close> and \<open>expensesByCategory\<close> have the same
  year keys, and \<open>reimbursementsByYear\<close> is 0 for a year none of whose accepted receipts
  is reimbursed.
\<close>

theorem year_keys_agree:
  assumes "getTotalsByYear (Inr fileNames) = Inr r"
  shows "dom (reimbursementsByYear r) = dom (expensesByYear r) \<and>
         dom (receiptCounts r) = dom (expensesByYear r) \<and>
         dom (expensesByCategory r) = dom (expensesByYear r) \<and>
         (\<forall>y \<in> dom (expensesByYear r).
            \<not> (\<exists>rc \<in> set (validReceipts r). r_year rc = y \<and> isReimbursed rc) \<longrightarrow>
            reimbursementsByYear r y = Some 0)"
proof -
  have r: "r = foldl processFile init_totals fileNames"
    using assms by (simp add: getTotalsByYear_def)
  have "same_years r"
    unfolding r by (rule foldl_invariant) (simp_all add: processFile_same_years, simp add: same_years_def init_totals_def)
  moreover have "zero_unless_reimbursed r"
    unfolding r by (rule foldl_invariant)
      (simp_all add: processFile_zero_unless_reimbursed, simp add: zero_unless_reimbursed_def init_totals_def)
  ultimately show ?thesis
    unfolding same_years_def zero_unless_reimbursed_def by blast
qed

lemma parse_one_receipt:
  "parseFileName ''2021-01-01 - Josh doctor - $50.00.pdf'' =
     \<lparr>year = Some ''2021'', description = Some ''Josh doctor'', amount = 50,
      isReimbursement = False, isValid = True, error = None\<rparr>"
  by code_simp

lemma scan_one_receipt:
  "foldl processFile init_totals one_receipt =
     \<lparr>expensesByYear = [''2021'' \<mapsto> 50], reimbursementsByYear = [''2021'' \<mapsto> 0],
      receiptCounts = [''2021'' \<mapsto> 1], invalidFiles = [],
      expensesByCategory = [''2021'' \<mapsto> [(''josh'', \<lparr>expenses = 50, reimbursements = 0, count = 1\<rparr>)]],
      validReceipts = [\<lparr>date = ''2021-01-01'', r_year = ''2021'', r_description = ''Josh doctor'',
        r_amount = 50, isReimbursed = False, category = ''josh''\<rparr>]\<rparr>"
proof -
  have c: "category_of ''Josh doctor'' = ''josh''" by code_simp
  have r: "round2 (fadd 0 50) = 50" by code_simp
  have d: "split_js ''2021-01-01 - Josh doctor - $50.00.pdf'' '' - '' ! 0 = ''2021-01-01''" by code_simp
  show ?thesis
    by (simp add: one_receipt_def processFile_def startsWith_def parse_one_receipt accept_eq
        init_totals_def prev_expenses_def prev_reimbursements_def prev_count_def
        prev_categories_def prev_category_def falsy_def c r d inherited_key_def)
qed

theorem year_keys_agree_witness:
  "getTotalsByYear (Inr one_receipt) = Inr (foldl processFile init_totals one_receipt) \<and>
   ''2021'' \<in> dom (expensesByYear (foldl processFile init_totals one_receipt)) \<and>
   \<not> (\<exists>rc \<in> set (validReceipts (foldl processFile init_totals one_receipt)).
        r_year rc = ''2021'' \<and> isReimbursed rc) \<and>
   reimbursementsByYear (foldl processFile init_totals one_receipt) ''2021'' = Some 0 \<and>
   dom (reimbursementsByYear (foldl processFile init_totals one_receipt)) = {''2021''} \<and>
   dom (receiptCounts (foldl processFile init_totals one_receipt)) = {''2021''} \<and>
   dom (expensesByCategory (foldl processFile init_totals one_receipt)) = {''2021''}"
proof -
  have g: "getTotalsByYear (Inr one_receipt) = Inr (foldl processFile init_totals one_receipt)"
    by (simp add: getTotalsByYear_def)
  have d: "dom (expensesByYear (foldl processFile init_totals one_receipt)) = {''2021''}"
    by (simp add: scan_one_receipt)
  have n: "\<not> (\<exists>rc \<in> set (validReceipts (foldl processFile init_totals one_receipt)).
        r_year rc = ''2021'' \<and> isReimbursed rc)"
    by (simp add: scan_one_receipt)
  show ?thesis
    using year_keys_agree [OF g] g d n by auto
qed

text \<open>The two small receipts, evaluated\<close>

lemma parse_dime:
  "parseFileName dime_receipt =
     \<lparr>year = Some ''2021'', description = Some ''Josh doctor'',
      amount = 3602879701896397 / 36028797018963968,
      isReimbursement = False, isValid = True, error = None\<rparr>"
  unfolding dime_receipt_def by code_simp

lemma parse_twenty_cents:
  "parseFileName twenty_cents_receipt =
     \<lparr>year = Some ''2021'', description = Some ''jane b'',
      amount = 3602879701896397 / 18014398509481984,
      isReimbursement = True, isValid = True, error = None\<rparr>"
  unfolding twenty_cents_receipt_def by code_simp

lemma category_josh_jane:
  "category_of ''Josh doctor'' = ''josh''" "category_of ''jane b'' = ''jane''"
  by code_simp+

lemma not_hidden: "\<not> startsWith dime_receipt ''.''" "\<not> startsWith twenty_cents_receipt ''.''"
  unfolding dime_receipt_def twenty_cents_receipt_def by code_simp+

lemma date_of_receipts:
  "split_js dime_receipt '' - '' ! 0 = ''2021-01-01''"
  "split_js twenty_cents_receipt '' - '' ! 0 = ''2021-01-02''"
  unfolding dime_receipt_def twenty_cents_receipt_def by code_simp+

lemma round_dime:
  "round2 (fadd 0 (3602879701896397 / 36028797018963968)) =
     3602879701896397 / 36028797018963968"
  by code_simp

lemma round_twenty_cents:
  "round2 (fadd 0 (3602879701896397 / 18014398509481984)) =
     3602879701896397 / 18014398509481984"
  by code_simp

lemma round_thirty_cents:
  "round2 (fadd (3602879701896397 / 36028797018963968) (3602879701896397 / 18014398509481984)) =
     5404319552844595 / 18014398509481984"
  by code_simp

lemma scan_dime:
  "processFile init_totals dime_receipt =
     \<lparr>expensesByYear = [''2021'' \<mapsto> 3602879701896397 / 36028797018963968],
      reimbursementsByYear = [''2021'' \<mapsto> 0],
      receiptCounts = [''2021'' \<mapsto> 1], invalidFiles = [],
      expensesByCategory = [''2021'' \<mapsto> [(''josh'',
        \<lparr>expenses = 3602879701896397 / 36028797018963968, reimbursements = 0, count = 1\<rparr>)]],
      validReceipts = [\<lparr>date = ''2021-01-01'', r_year = ''2021'', r_description = ''Josh doctor'',
        r_amount = 3602879701896397 / 36028797018963968, isReimbursed = False,
        category = ''josh''\<rparr>]\<rparr>"
  by (simp add: processFile_def Let_def not_hidden parse_dime accept_eq
      init_totals_def prev_expenses_def prev_reimbursements_def prev_count_def
      prev_categories_def prev_category_def falsy_def category_josh_jane round_dime
      date_of_receipts inherited_key_def)

lemma scan_dime_twenty_cents:
  "foldl processFile init_totals [dime_receipt, twenty_cents_receipt] =
     \<lparr>expensesByYear = [''2021'' \<mapsto> 5404319552844595 / 18014398509481984],
      reimbursementsByYear = [''2021'' \<mapsto> 3602879701896397 / 18014398509481984],
      receiptCounts = [''2021'' \<mapsto> 2], invalidFiles = [],
      expensesByCategory = [''2021'' \<mapsto>
        [(''josh'', \<lparr>expenses = 3602879701896397 / 36028797018963968, reimbursements = 0,
            count = 1\<rparr>),
         (''jane'', \<lparr>expenses = 3602879701896397 / 18014398509481984,
            reimbursements = 3602879701896397 / 18014398509481984, count = 1\<rparr>)]],
      validReceipts =
        [\<lparr>date = ''2021-01-01'', r_year = ''2021'', r_description = ''Josh doctor'',
          r_amount = 3602879701896397 / 36028797018963968, isReimbursed = False,
          category = ''josh''\<rparr>,
         \<lparr>date = ''2021-01-02'', r_year = ''2021'', r_description = ''jane b'',
          r_amount = 3602879701896397 / 18014398509481984, isReimbursed = True,
          category = ''jane''\<rparr>]\<rparr>"
  unfolding foldl.simps scan_dime
  by (simp add: processFile_def Let_def not_hidden parse_twenty_cents accept_eq
      prev_expenses_def prev_reimbursements_def prev_count_def
      prev_categories_def prev_category_def falsy_def category_josh_jane round_twenty_cents
      round_thirty_cents date_of_receipts numeral_2_eq_2 inherited_key_def)

text \<open>
  C6: for every accepted receipt the body of the loop stores, as the new yearly expenses
  and yearly reimbursements, and as the new expenses and reimbursements of the receipt's
  category, the sum of the previous value and the amount passed through
  \<^verbatim>\<open>+(...).toFixed(2)\<close>; the rounding is part of every addition, and below \<open>10\<^sup>2\<^sup>1\<close> its
  result is the number nearest to a multiple of one hundredth. (A category named
  \<^verbatim>\<open>constructor\<close> or \<^verbatim>\<open>__proto__\<close> has no sums in \<open>expensesByCategory\<close>.)
\<close>

theorem sums_rounded_after_each_addition:
  assumes "\<not> startsWith fileName ''.''" and "isValid (parseFileName fileName)"
    and "0 < amount (parseFileName fileName)"
  shows "expensesByYear (processFile st fileName) (the (year (parseFileName fileName))) =
           Some (round2 (fadd (prev_expenses st (the (year (parseFileName fileName))))
             (amount (parseFileName fileName)))) \<and>
         (isReimbursement (parseFileName fileName) \<longrightarrow>
            reimbursementsByYear (processFile st fileName) (the (year (parseFileName fileName))) =
              Some (round2 (fadd (prev_reimbursements st (the (year (parseFileName fileName))))
                (amount (parseFileName fileName))))) \<and>
         (\<not> inherited_key (category_of (the (description (parseFileName fileName)))) \<longrightarrow>
            map_option expenses
              (map_of (the (expensesByCategory (processFile st fileName)
                  (the (year (parseFileName fileName)))))
                (category_of (the (description (parseFileName fileName))))) =
              Some (round2 (fadd (expenses (prev_category st (the (year (parseFileName fileName)))
                  (category_of (the (description (parseFileName fileName))))))
                (amount (parseFileName fileName))))) \<and>
         (\<not> inherited_key (category_of (the (description (parseFileName fileName)))) \<and>
          isReimbursement (parseFileName fileName) \<longrightarrow>
            map_option reimbursements
              (map_of (the (expensesByCategory (processFile st fileName)
                  (the (year (parseFileName fileName)))))
                (category_of (the (description (parseFileName fileName))))) =
              Some (round2 (fadd (reimbursements (prev_category st
                  (the (year (parseFileName fileName)))
                  (category_of (the (description (parseFileName fileName))))))
                (amount (parseFileName fileName))))) \<and>
         (\<forall>x. 0 \<le> x \<and> x < 10 ^ 21 \<longrightarrow> (\<exists>n. round2 x = fl (of_int n / 100)))"
proof -
  have "processFile st fileName = accept fileName (parseFileName fileName) st"
    using assms by (simp add: processFile_def Let_def)
  moreover have "\<forall>x. 0 \<le> x \<and> x < 10 ^ 21 \<longrightarrow> (\<exists>n. round2 x = fl (of_int n / 100))"
    by (auto simp: round2_def)
  ultimately show ?thesis
    by (simp add: accept_eq AList.update_conv')
qed

theorem sums_rounded_after_each_addition_witness:
  "\<not> startsWith twenty_cents_receipt ''.'' \<and> isValid (parseFileName twenty_cents_receipt) \<and>
   0 < amount (parseFileName twenty_cents_receipt) \<and>
   isReimbursement (parseFileName twenty_cents_receipt) \<and>
   expensesByYear (processFile (processFile init_totals dime_receipt) twenty_cents_receipt)
     ''2021'' = Some (5404319552844595 / 18014398509481984) \<and>
   reimbursementsByYear (processFile (processFile init_totals dime_receipt) twenty_cents_receipt)
     ''2021'' = Some (3602879701896397 / 18014398509481984) \<and>
   \<not> inherited_key (category_of (the (description (parseFileName twenty_cents_receipt))))"
proof -
  let ?st = "processFile init_totals dime_receipt"
  have v: "isValid (parseFileName twenty_cents_receipt)"
    and a: "0 < amount (parseFileName twenty_cents_receipt)"
    and r: "isReimbursement (parseFileName twenty_cents_receipt)"
    by (simp_all add: parse_twenty_cents)
  have y: "the (year (parseFileName twenty_cents_receipt)) = ''2021''"
    "amount (parseFileName twenty_cents_receipt) = 3602879701896397 / 18014398509481984"
    by (simp_all add: parse_twenty_cents)
  have p: "prev_expenses ?st ''2021'' = 3602879701896397 / 36028797018963968"
    "prev_reimbursements ?st ''2021'' = 0"
    by (simp_all add: scan_dime prev_expenses_def prev_reimbursements_def falsy_def)
  note t = sums_rounded_after_each_addition [OF not_hidden(2) v a, of ?st,
      unfolded y p round_thirty_cents round_twenty_cents]
  have k: "\<not> inherited_key (category_of (the (description (parseFileName twenty_cents_receipt))))"
    by (simp add: parse_twenty_cents category_josh_jane inherited_key_def)
  show ?thesis
    using t r v a k not_hidden(2) by blast
qed

section \<open>Properties of calculateSummaryStats\<close>

lemma pick_year_fold:
  "\<exists>i < length (y # ys).
     foldl (pick_year ebY) y ys = (y # ys) ! i \<and>
     (\<forall>j < length (y # ys). or0 (ebY ((y # ys) ! j)) \<le> or0 (ebY ((y # ys) ! i))) \<and>
     (\<forall>j < i. or0 (ebY ((y # ys) ! j)) < or0 (ebY ((y # ys) ! i)))"
proof (induction ys rule: rev_induct)
  case Nil
  show ?case by simp
next
  case (snoc z ys)
  then obtain i where i: "i < length (y # ys)"
    and m: "foldl (pick_year ebY) y ys = (y # ys) ! i"
    and mx: "\<forall>j < length (y # ys). or0 (ebY ((y # ys) ! j)) \<le> or0 (ebY ((y # ys) ! i))"
    and fst: "\<forall>j < i. or0 (ebY ((y # ys) ! j)) < or0 (ebY ((y # ys) ! i))"
    by blast
  let ?all = "y # ys @ [z]"
  have old: "?all ! j = (y # ys) ! j" if "j < length (y # ys)" for j
    using that nth_append [of "y # ys" "[z]" j] by simp
  have new: "?all ! length (y # ys) = z"
    using nth_append_length [of "y # ys" z "[]"] by simp
  show ?case
  proof (cases "or0 (ebY ((y # ys) ! i)) < or0 (ebY z)")
    case True
    then have r: "foldl (pick_year ebY) y (ys @ [z]) = z"
      by (simp add: m pick_year_def)
    have "\<forall>j < length ?all. or0 (ebY (?all ! j)) \<le> or0 (ebY z)"
    proof (intro allI impI)
      fix j assume "j < length ?all"
      then consider "j < length (y # ys)" | "j = length (y # ys)" by fastforce
      then show "or0 (ebY (?all ! j)) \<le> or0 (ebY z)"
      proof cases
        case 1
        with mx True old [OF 1] show ?thesis by force
      next
        case 2
        with new show ?thesis by simp
      qed
    qed
    moreover have "\<forall>j < length (y # ys). or0 (ebY (?all ! j)) < or0 (ebY z)"
    proof (intro allI impI)
      fix j assume j: "j < length (y # ys)"
      with mx True old [OF j] show "or0 (ebY (?all ! j)) < or0 (ebY z)" by force
    qed
    ultimately show ?thesis
      using r new by (intro exI [of _ "length (y # ys)"]) simp
  next
    case False
    then have r: "foldl (pick_year ebY) y (ys @ [z]) = (y # ys) ! i"
      by (simp add: m pick_year_def)
    have "\<forall>j < length ?all. or0 (ebY (?all ! j)) \<le> or0 (ebY ((y # ys) ! i))"
    proof (intro allI impI)
      fix j assume "j < length ?all"
      then consider "j < length (y # ys)" | "j = length (y # ys)" by fastforce
      then show "or0 (ebY (?all ! j)) \<le> or0 (ebY ((y # ys) ! i))"
      proof cases
        case 1
        with mx old [OF 1] show ?thesis by simp
      next
        case 2
        with new False show ?thesis by simp
      qed
    qed
    moreover have "\<forall>j < i. or0 (ebY (?all ! j)) < or0 (ebY ((y # ys) ! i))"
    proof (intro allI impI)
      fix j assume "j < i"
      with i fst old [of j] show "or0 (ebY (?all ! j)) < or0 (ebY ((y # ys) ! i))" by simp
    qed
    ultimately show ?thesis
      using r i old [OF i] by (intro exI [of _ i]) simp
  qed
qed

text \<open>
  C4: \<open>mostExpensiveYear\<close> is null for an empty list of years. For a non-empty list it is
  the result of a left fold from the first year that replaces the best year so far only by
  a year whose expenses are strictly greater; so it is the first year of the list, by
  position, whose expenses are the maximum.
\<close>

theorem most_expensive_year_first_maximum:
  "mostExpensiveYear (calculateSummaryStats [] ebY counts) = None \<and>
   (years \<noteq> [] \<longrightarrow>
      mostExpensiveYear (calculateSummaryStats years ebY counts) =
        Some (foldl (\<lambda>maxYear y. if or0 (ebY maxYear) < or0 (ebY y) then y else maxYear)
               (hd years) (tl years)) \<and>
      (\<exists>i < length years.
         mostExpensiveYear (calculateSummaryStats years ebY counts) = Some (years ! i) \<and>
         (\<forall>j < length years. or0 (ebY (years ! j)) \<le> or0 (ebY (years ! i))) \<and>
         (\<forall>j < i. or0 (ebY (years ! j)) < or0 (ebY (years ! i)))))"
proof (cases years)
  case Nil
  then show ?thesis by (simp add: calculateSummaryStats_def)
next
  case (Cons y ys)
  have f: "pick_year ebY = (\<lambda>maxYear y. if or0 (ebY maxYear) < or0 (ebY y) then y else maxYear)"
    by (simp add: pick_year_def fun_eq_iff)
  have m: "mostExpensiveYear (calculateSummaryStats (y # ys) ebY counts) =
      Some (foldl (pick_year ebY) y ys)"
    by (simp add: calculateSummaryStats_def Let_def)
  show ?thesis
    using pick_year_fold [of y ys ebY] unfolding Cons m
    by (simp add: calculateSummaryStats_def f)
qed

theorem most_expensive_year_first_maximum_witness:
  "[''2021'', ''2022'', ''2023''] \<noteq> [] \<and>
   mostExpensiveYear (calculateSummaryStats [''2021'', ''2022'', ''2023'']
     [''2021'' \<mapsto> 5, ''2022'' \<mapsto> 7, ''2023'' \<mapsto> 7] Map.empty) = Some ''2022'' \<and>
   (\<exists>i < length [''2021'', ''2022'', ''2023''].
      mostExpensiveYear (calculateSummaryStats [''2021'', ''2022'', ''2023'']
        [''2021'' \<mapsto> 5, ''2022'' \<mapsto> 7, ''2023'' \<mapsto> 7] Map.empty) =
        Some ([''2021'', ''2022'', ''2023''] ! i))"
proof -
  have ne: "[''2021'', ''2022'', ''2023''] \<noteq> []" by simp
  have v: "mostExpensiveYear (calculateSummaryStats [''2021'', ''2022'', ''2023'']
     [''2021'' \<mapsto> 5, ''2022'' \<mapsto> 7, ''2023'' \<mapsto> 7] Map.empty) = Some ''2022''"
    by (simp add: calculateSummaryStats_def pick_year_def or0_def)
  show ?thesis
    using most_expensive_year_first_maximum [of "[''2021'' \<mapsto> 5, ''2022'' \<mapsto> 7, ''2023'' \<mapsto> 7]"
        Map.empty "[''2021'', ''2022'', ''2023'']"] ne v
    by blast
qed

section \<open>Properties of buildYearlyResultObject\<close>

lemma fold_add_year:
  "totalExpenses (foldl (add_year ebY rbY counts ebC) b years) =
     foldl fadd (totalExpenses b) (map (\<lambda>y. or0 (ebY y)) years) \<and>
   totalReimbursements (foldl (add_year ebY rbY counts ebC) b years) =
     foldl fadd (totalReimbursements b) (map (\<lambda>y. or0 (rbY y)) years) \<and>
   totalReceipts (foldl (add_year ebY rbY counts ebC) b years) =
     totalReceipts b + sum_list (map (\<lambda>y. or0 (counts y)) years)"
  by (induction years arbitrary: b) (simp_all add: add_year_def Let_def)

text \<open>
  C5: for every input the result of \<open>buildYearlyResultObject\<close> has a \<^verbatim>\<open>Total\<close> row;
  its expenses and reimbursements are the formatted sums, and its receipts the sum, of the
  values of the listed years, added up year by year from 0, and it has no
  \<^verbatim>\<open>byCategory\<close> key. For the years \<^verbatim>\<open>["2021"]\<close> with expenses 100.5, reimbursements
  50.25 and 2 receipts the result is the row of 2021 and the same row as the total.
\<close>

theorem total_row_resums_years:
  "buildYearlyResultObject years ebY rbY counts ebC ''Total'' =
     Some \<lparr>row_expenses = dollars (foldl fadd 0 (map (\<lambda>y. or0 (ebY y)) years)),
           row_reimbursements = dollars (foldl fadd 0 (map (\<lambda>y. or0 (rbY y)) years)),
           receipts = sum_list (map (\<lambda>y. or0 (counts y)) years),
           byCategory = None\<rparr> \<and>
   buildYearlyResultObject [''2021''] [''2021'' \<mapsto> 100.5] [''2021'' \<mapsto> 50.25] [''2021'' \<mapsto> 2]
       Map.empty =
     [''2021'' \<mapsto> \<lparr>row_expenses = ''$100.50'', row_reimbursements = ''$50.25'', receipts = 2,
                    byCategory = None\<rparr>,
      ''Total'' \<mapsto> \<lparr>row_expenses = ''$100.50'', row_reimbursements = ''$50.25'', receipts = 2,
                    byCategory = None\<rparr>]"
proof
  show "buildYearlyResultObject years ebY rbY counts ebC ''Total'' =
     Some \<lparr>row_expenses = dollars (foldl fadd 0 (map (\<lambda>y. or0 (ebY y)) years)),
           row_reimbursements = dollars (foldl fadd 0 (map (\<lambda>y. or0 (rbY y)) years)),
           receipts = sum_list (map (\<lambda>y. or0 (counts y)) years),
           byCategory = None\<rparr>"
    by (simp add: buildYearlyResultObject_def Let_def fold_add_year)
next
  have e: "dollars (201 / 2) = ''$100.50''" "dollars (fadd 0 (201 / 2)) = ''$100.50''"
    by code_simp+
  have r: "dollars (201 / 4) = ''$50.25''" "dollars (fadd 0 (201 / 4)) = ''$50.25''"
    by code_simp+
  show "buildYearlyResultObject [''2021''] [''2021'' \<mapsto> 100.5] [''2021'' \<mapsto> 50.25] [''2021'' \<mapsto> 2]
       Map.empty =
     [''2021'' \<mapsto> \<lparr>row_expenses = ''$100.50'', row_reimbursements = ''$50.25'', receipts = 2,
                    byCategory = None\<rparr>,
      ''Total'' \<mapsto> \<lparr>row_expenses = ''$100.50'', row_reimbursements = ''$50.25'', receipts = 2,
                    byCategory = None\<rparr>]"
    by (simp add: buildYearlyResultObject_def Let_def add_year_def or0_def e r)
qed

section \<open>Rounding to double precision\<close>

lemma pow2_pos: "0 < pow2 e"
  by (simp add: pow2_def)

lemma pow2_add: "pow2 (a + b) = pow2 a * pow2 b"
proof -
  have "pow2 e = 2 powi e" for e
    by (simp add: pow2_def power_int_def field_simps)
  then show ?thesis by (simp add: power_int_add)
qed

lemma pow2_powi: "pow2 e = 2 powi e"
  by (simp add: pow2_def power_int_def field_simps)

lemma pow2_mono: "a \<le> b \<Longrightarrow> pow2 a \<le> pow2 b"
  by (simp add: pow2_powi power_int_increasing)

lemma pow2_less_cancel: "pow2 a < pow2 b \<Longrightarrow> a < b"
  using pow2_mono [of b a] by (cases "a < b") auto

lemma pow2_nat: "pow2 (int n) = 2 ^ n"
  by (simp add: pow2_def)

lemma ilog2_lower:
  assumes "0 < x"
  shows "pow2 (ilog2 x) \<le> x"
proof (cases "1 \<le> x")
  case True
  define k where "k = \<lfloor>x\<rfloor>"
  have k: "0 < k" using True by (simp add: k_def)
  have b: "1 \<le> bitlen k" using k by (simp add: bitlen_alt_def)
  have "(2::int) ^ nat (bitlen k - 1) \<le> k"
    using bitlen_bounds [OF k] by simp
  then have "(of_int ((2::int) ^ nat (bitlen k - 1)) :: rat) \<le> of_int k"
    by (simp only: of_int_le_iff)
  then have "(2::rat) ^ nat (bitlen k - 1) \<le> of_int k" by simp
  also have "\<dots> \<le> x" by (simp add: k_def)
  finally show ?thesis
    using True b by (simp add: ilog2_def k_def pow2_def)
next
  case False
  define k where "k = \<lfloor>1 / x\<rfloor>"
  define j where "j = bitlen k"
  have x1: "x < 1" using False by simp
  then have "1 < 1 / x" using assms by (simp add: field_simps)
  then have k: "0 < k" by (simp add: k_def)
  have j: "1 \<le> j" using k by (simp add: j_def bitlen_alt_def)
  have "k < 2 ^ nat j"
    using bitlen_bounds [OF k] by (simp add: j_def)
  then have "k + 1 \<le> 2 ^ nat j" by simp
  then have "(of_int (k + 1) :: rat) \<le> of_int (2 ^ nat j)"
    by (simp only: of_int_le_iff)
  then have "(of_int k :: rat) + 1 \<le> 2 ^ nat j" by simp
  moreover have "1 / x < of_int k + 1"
    unfolding k_def by linarith
  ultimately have "1 / x < 2 ^ nat j" by simp
  then have "1 < x * 2 ^ nat j"
    using assms by (simp add: field_simps)
  then have low: "1 / 2 ^ nat j < x"
    by (simp add: field_simps)
  show ?thesis
  proof (cases "x * pow2 (j - 1) = 1")
    case True
    have "pow2 (1 - j) * pow2 (j - 1) = 1"
      using pow2_add [of "1 - j" "j - 1"] by (simp add: pow2_def)
    with True have "pow2 (1 - j) = x"
      using pow2_pos [of "j - 1"] by (metis mult_cancel_right less_irrefl)
    with True False show ?thesis
      by (simp add: ilog2_def Let_def k_def [symmetric] j_def [symmetric])
  next
    case neq: False
    have "pow2 (- j) = 1 / 2 ^ nat j"
      using j by (simp add: pow2_def)
    with low neq False show ?thesis
      by (simp add: ilog2_def Let_def k_def [symmetric] j_def [symmetric])
  qed
qed

lemma round_half_even_error: "\<bar>of_int (round_half_even m) - m\<bar> \<le> 1 / 2"
proof -
  have "of_int \<lfloor>m\<rfloor> \<le> m" "m < of_int \<lfloor>m\<rfloor> + 1" by linarith+
  then show ?thesis
    unfolding round_half_even_def Let_def by (simp add: abs_if) linarith
qed

lemma round_half_even_nonneg: "0 \<le> m \<Longrightarrow> 0 \<le> round_half_even m"
  by (auto simp: round_half_even_def Let_def)

lemma fl_pos_error:
  assumes "0 < x"
  shows "\<bar>fl_pos x - x\<bar> \<le> pow2 (ilog2 x - 53)"
proof -
  define u where "u = pow2 (ilog2 x - 52)"
  have u: "0 < u" by (simp add: u_def pow2_pos)
  have "fl_pos x - x = (of_int (round_half_even (x / u)) - x / u) * u"
    using u by (simp add: fl_pos_def u_def [symmetric] field_simps)
  then have "\<bar>fl_pos x - x\<bar> = \<bar>of_int (round_half_even (x / u)) - x / u\<bar> * u"
    using u by (simp add: abs_mult)
  also have "\<dots> \<le> 1 / 2 * u"
    using round_half_even_error [of "x / u"] u by (intro mult_right_mono) simp_all
  also have "\<dots> = pow2 (ilog2 x - 53)"
    using pow2_add [of "ilog2 x - 53" 1] by (simp add: u_def pow2_def [of 1])
  finally show ?thesis .
qed

lemma fl_error_below:
  assumes "0 < x" and "x < 2 ^ k"
  shows "\<bar>fl x - x\<bar> \<le> pow2 (int k - 54)"
proof -
  have "pow2 (ilog2 x) < pow2 (int k)"
    using ilog2_lower [OF assms(1)] assms(2) by (simp add: pow2_nat)
  then have "ilog2 x < int k" by (rule pow2_less_cancel)
  then have "pow2 (ilog2 x - 53) \<le> pow2 (int k - 54)"
    by (intro pow2_mono) simp
  with fl_pos_error [OF assms(1)] show ?thesis
    using assms(1) by (simp add: fl_def)
qed

lemma fl_nonneg:
  assumes "0 \<le> x"
  shows "0 \<le> fl x"
proof -
  have "0 \<le> x / pow2 (ilog2 x - 52)"
    using assms pow2_pos [of "ilog2 x - 52"] by simp
  then have "0 \<le> round_half_even (x / pow2 (ilog2 x - 52))"
    by (rule round_half_even_nonneg)
  then have "0 \<le> fl_pos x"
    using pow2_pos [of "ilog2 x - 52"] by (simp add: fl_pos_def Let_def)
  then show ?thesis
    using assms by (simp add: fl_def)
qed

lemma fl_zero: "fl 0 = 0"
  by (simp add: fl_def)

lemma fl_relative_error:
  assumes "0 < x"
  shows "\<bar>fl x - x\<bar> \<le> x / 2 ^ 53"
proof -
  have "pow2 (ilog2 x - 53) = pow2 (ilog2 x) * pow2 (- 53)"
    using pow2_add [of "ilog2 x" "- 53"] by simp
  also have "\<dots> = pow2 (ilog2 x) / 2 ^ 53"
    by (simp add: pow2_def)
  also have "\<dots> \<le> x / 2 ^ 53"
    using ilog2_lower [OF assms] by (simp add: divide_right_mono)
  finally show ?thesis
    using fl_pos_error [OF assms] assms by (simp add: fl_def)
qed

lemma fl_positive:
  assumes "0 < x"
  shows "0 < fl x"
proof -
  have "x / 2 ^ 53 < x" using assms by (simp add: field_simps)
  with fl_relative_error [OF assms] show ?thesis by linarith
qed

lemma toFixed_n_near:
  assumes "\<bar>y - of_int n / 100\<bar> < 1 / 200"
  shows "toFixed_n y = n"
proof -
  have "of_int n \<le> y * 100 + 1 / 2" "y * 100 + 1 / 2 < of_int n + 1"
    using assms by linarith+
  then show ?thesis
    unfolding toFixed_n_def by (intro floor_unique) simp_all
qed

lemma cents_bound_value: "(10::rat) ^ 15 / 100 < 2 ^ 44"
  by simp

lemma fl_cents_error:
  assumes "0 \<le> n" and "n \<le> 10 ^ 15"
  shows "\<bar>fl (of_int n / 100) - of_int n / 100\<bar> \<le> 1 / 1024"
proof (cases "n = 0")
  case True
  then show ?thesis by (simp add: fl_zero)
next
  case False
  with assms have pos: "(0::rat) < of_int n / 100" by simp
  have "(of_int n :: rat) \<le> of_int (10 ^ 15)"
    using assms(2) by (simp only: of_int_le_iff)
  then have "(of_int n :: rat) / 100 < 2 ^ 44" by simp
  from fl_error_below [OF pos this] show ?thesis
    by (simp add: pow2_def)
qed

lemma cents_fl:
  assumes "0 \<le> n" and "n \<le> 10 ^ 15"
  shows "cents (fl (of_int n / 100)) = n"
proof -
  have "\<bar>fl (of_int n / 100) - of_int n / 100\<bar> < 1 / 200"
    using fl_cents_error [OF assms] by linarith
  then show ?thesis
    unfolding cents_def by (rule toFixed_n_near)
qed

lemma round2_fadd_cents:
  assumes "0 \<le> a" and "0 \<le> b" and "a + b \<le> 10 ^ 15"
  shows "round2 (fadd (fl (of_int a / 100)) (fl (of_int b / 100))) = fl (of_int (a + b) / 100)"
proof -
  define t where "t = fl (of_int a / 100)"
  define v where "v = fl (of_int b / 100)"
  define s where "s = fl (t + v)"
  have a': "a \<le> 10 ^ 15" and b': "b \<le> 10 ^ 15" using assms by simp_all
  have te: "\<bar>t - of_int a / 100\<bar> \<le> 1 / 1024"
    unfolding t_def using assms(1) a' by (rule fl_cents_error)
  have ve: "\<bar>v - of_int b / 100\<bar> \<le> 1 / 1024"
    unfolding v_def using assms(2) b' by (rule fl_cents_error)
  have t0: "0 \<le> t" unfolding t_def using assms(1) by (intro fl_nonneg) simp
  have v0: "0 \<le> v" unfolding v_def using assms(2) by (intro fl_nonneg) simp
  have "(of_int (a + b) :: rat) \<le> of_int (10 ^ 15)"
    using assms(3) by (simp only: of_int_le_iff)
  then have n: "(of_int (a + b) :: rat) / 100 \<le> 10000000000000" by (simp del: of_int_add)
  have "(of_int (a + b) :: rat) / 100 = of_int a / 100 + of_int b / 100"
    by (simp add: add_divide_distrib)
  then have sum_err: "\<bar>t + v - of_int (a + b) / 100\<bar> \<le> 1 / 512"
    using te ve by linarith
  have se: "\<bar>s - (t + v)\<bar> \<le> 1 / 512"
  proof (cases "t + v = 0")
    case True
    then show ?thesis by (simp add: s_def fl_zero)
  next
    case False
    with t0 v0 have pos: "0 < t + v" by simp
    have "t + v \<le> of_int (a + b) / 100 + 1 / 512"
      using sum_err by linarith
    then have "t + v < 35184372088832" using n by linarith
    then have "t + v < 2 ^ 45" by simp
    from fl_error_below [OF pos this] show ?thesis
      by (simp add: s_def pow2_def)
  qed
  have near: "\<bar>s - of_int (a + b) / 100\<bar> \<le> 1 / 256"
    using sum_err se by linarith
  then have "\<bar>s - of_int (a + b) / 100\<bar> < 1 / 200" by linarith
  then have c: "toFixed_n s = a + b"
    by (rule toFixed_n_near)
  have s0: "0 \<le> s" unfolding s_def using t0 v0 by (intro fl_nonneg) simp
  have "s \<le> of_int (a + b) / 100 + 1 / 256"
    using near by linarith
  then have "s < 1000000000000000000000" using n by linarith
  then have s21: "s < 10 ^ 21" by simp
  show ?thesis
    using s0 s21 c by (simp add: fadd_def round2_def t_def [symmetric] v_def [symmetric] s_def [symmetric])
qed

lemma cents_fl_large:
  assumes "0 \<le> n" and "cents (fl (of_int n / 100)) \<le> 10 ^ 15"
  shows "n \<le> 10 ^ 15"
proof (rule ccontr)
  assume "\<not> n \<le> 10 ^ 15"
  then have "10 ^ 15 + 1 \<le> n" by simp
  then have "(of_int (10 ^ 15 + 1) :: rat) \<le> of_int n"
    by (simp only: of_int_le_iff)
  then have big: "(10 ^ 15 + 1 :: rat) \<le> of_int n" by simp
  define x :: rat where "x = of_int n / 100"
  have pos: "0 < x" using big by (simp add: x_def)
  have "x - x / 2 ^ 53 \<le> fl x"
    using fl_relative_error [OF pos] by linarith
  moreover have "(10 ^ 15 + 1) / 100 * (1 - 1 / 2 ^ 53) \<le> x - x / 2 ^ 53"
  proof -
    have "(10 ^ 15 + 1) / 100 \<le> x" using big by (simp add: x_def)
    then have "(10 ^ 15 + 1) / 100 * (1 - 1 / 2 ^ 53) \<le> x * (1 - 1 / 2 ^ 53)"
      by (intro mult_right_mono) simp_all
    then show ?thesis by (simp add: algebra_simps)
  qed
  ultimately have "(10 ^ 15 + 1) / 100 * (1 - 1 / 2 ^ 53) \<le> fl x" by linarith
  then have "(10 ^ 15 + 1 :: rat) \<le> fl x * 100 + 1 / 2" by simp
  then have "(10 ^ 15 + 1 :: int) \<le> \<lfloor>fl x * 100 + 1 / 2\<rfloor>"
    by (subst le_floor_iff) simp
  with assms(2) show False
    by (simp add: cents_def toFixed_n_def x_def)
qed

section \<open>Rendering an amount\<close>

lemma digit_cases:
  "is_digit c \<longleftrightarrow> c = CHR ''0'' \<or> c = CHR ''1'' \<or> c = CHR ''2'' \<or> c = CHR ''3'' \<or> c = CHR ''4'' \<or>
     c = CHR ''5'' \<or> c = CHR ''6'' \<or> c = CHR ''7'' \<or> c = CHR ''8'' \<or> c = CHR ''9''"
  by (auto simp: is_digit_def)

lemma digit_val_range: "is_digit c \<Longrightarrow> 0 \<le> digit_val c \<and> digit_val c < 10"
  by (auto simp: digit_cases digit_val_def)

lemma digit_char_val: "is_digit c \<Longrightarrow> digit_char (digit_val c) = c"
  by (auto simp: digit_cases digit_val_def digit_char_def)

lemma digit_val_zero: "is_digit c \<Longrightarrow> digit_val c = 0 \<longleftrightarrow> c = CHR ''0''"
  by (auto simp: digit_cases digit_val_def)

lemma dec_val_snoc: "dec_val (s @ [c]) = 10 * dec_val s + digit_val c"
  by (simp add: dec_val_def)

lemma dec_val_append: "dec_val (s @ t) = dec_val s * 10 ^ length t + dec_val t"
proof (induction t rule: rev_induct)
  case Nil
  show ?case by (simp add: dec_val_def)
next
  case (snoc c t)
  have "dec_val (s @ t @ [c]) = 10 * dec_val (s @ t) + digit_val c"
    using dec_val_snoc [of "s @ t" c] by simp
  then show ?case
    by (simp add: snoc.IH dec_val_snoc algebra_simps)
qed

lemma dec_val_bounds:
  "\<forall>c \<in> set s. is_digit c \<Longrightarrow> 0 \<le> dec_val s \<and> dec_val s < 10 ^ length s"
proof (induction s rule: rev_induct)
  case Nil
  show ?case by (simp add: dec_val_def)
next
  case (snoc c s)
  then have "0 \<le> dec_val s" "dec_val s + 1 \<le> 10 ^ length s" by simp_all
  moreover have "0 \<le> digit_val c" "digit_val c < 10"
    using snoc.prems digit_val_range [of c] by simp_all
  ultimately show ?case
    by (simp add: dec_val_snoc)
qed

lemma digits_of_small: "0 \<le> n \<Longrightarrow> n < 10 \<Longrightarrow> digits_of n = [digit_char n]"
  by (simp add: digits_of.simps)

lemma digits_of_step:
  assumes "0 < q" and "0 \<le> d" and "d < 10"
  shows "digits_of (10 * q + d) = digits_of q @ [digit_char d]"
proof -
  have "\<not> 10 * q + d < 10" using assms by simp
  moreover have "(10 * q + d) div 10 = q" "(10 * q + d) mod 10 = d"
    using assms by simp_all
  ultimately show ?thesis
    by (subst digits_of.simps) simp
qed

lemma digits_of_dec_val:
  assumes "s \<noteq> []" and "\<forall>c \<in> set s. is_digit c" and "hd s \<noteq> CHR ''0''"
  shows "digits_of (dec_val s) = s \<and> 0 < dec_val s"
  using assms
proof (induction s rule: rev_induct)
  case Nil
  then show ?case by simp
next
  case (snoc c s)
  have c: "is_digit c" using snoc.prems by simp
  show ?case
  proof (cases "s = []")
    case True
    then have "c \<noteq> CHR ''0''" using snoc.prems by simp
    then have "0 < digit_val c"
      using digit_val_range [OF c] digit_val_zero [OF c] by linarith
    then show ?thesis
      using True digit_val_range [OF c] digit_char_val [OF c]
      by (simp add: dec_val_def digits_of_small)
  next
    case False
    then have "hd s \<noteq> CHR ''0''" using snoc.prems by simp
    with False snoc have ih: "digits_of (dec_val s) = s" "0 < dec_val s" by simp_all
    show ?thesis
      using digits_of_step [OF ih(2), of "digit_val c"] digit_val_range [OF c]
        digit_char_val [OF c] ih
      by (simp add: dec_val_snoc)
  qed
qed

lemma fixed_digits_canonical:
  assumes "ds \<noteq> []" and "length fs = 2" and "\<forall>c \<in> set (ds @ fs). is_digit c"
    and "canonical_amount (ds @ CHR ''.'' # fs)"
  shows "fixed_digits (dec_val (ds @ fs)) = ds @ CHR ''.'' # fs"
proof (cases "hd ds = CHR ''0''")
  case False
  then have "hd (ds @ fs) \<noteq> CHR ''0''" using assms(1) by simp
  then have "digits_of (dec_val (ds @ fs)) = ds @ fs"
    using digits_of_dec_val [of "ds @ fs"] assms by simp
  moreover have "\<not> length (ds @ fs) \<le> 2"
    using assms(1,2) by (cases ds) simp_all
  ultimately show ?thesis
    using assms(2) by (simp add: fixed_digits_def Let_def)
next
  case True
  moreover have "\<not> is_digit CHR ''.''" by (simp add: is_digit_def)
  ultimately have ds: "ds = ''0''"
    using assms(1,3,4) by (cases ds; cases "tl ds") (auto simp: canonical_amount_def)
  obtain a b where fs: "fs = [a, b]"
    using assms(2) by (cases fs; cases "tl fs") auto
  have a: "is_digit a" and b: "is_digit b" using assms(3) fs by simp_all
  have v: "dec_val (ds @ fs) = dec_val fs"
    by (simp add: ds dec_val_def digit_val_def)
  show ?thesis
  proof (cases "a = CHR ''0''")
    case True
    then have "dec_val fs = digit_val b"
      by (simp add: fs dec_val_def digit_val_def)
    then have "digits_of (dec_val (ds @ fs)) = [b]"
      using digit_val_range [OF b] digit_char_val [OF b] by (simp add: v digits_of_small)
    then show ?thesis
      unfolding fixed_digits_def Let_def by (simp add: ds fs True)
  next
    case False
    then have "digits_of (dec_val fs) = fs"
      using digits_of_dec_val [of fs] a b by (simp add: fs)
    then have "digits_of (dec_val (ds @ fs)) = fs"
      by (simp add: v)
    then show ?thesis
      unfolding fixed_digits_def Let_def by (simp add: ds fs)
  qed
qed

text \<open>
  C7 fails as stated: the pattern admits leading zeros, which \<open>parseFloat\<close> drops, so
  \<^verbatim>\<open>$007.50\<close> is rendered \<^verbatim>\<open>$7.50\<close>.
\<close>

theorem amount_round_trip_counterexample:
  "rmatch rx_amount ''007.50'' \<and> parseFloat ''007.50'' = Some (15 / 2) \<and>
   dollars (15 / 2) = ''$7.50'' \<and> dollars (15 / 2) \<noteq> ''$'' @ ''007.50'' \<and>
   isValid (parseFileName ''2021-01-10 - x - $007.50.pdf'') \<and>
   amount (parseFileName ''2021-01-10 - x - $007.50.pdf'') = 15 / 2"
  by code_simp

text \<open>
  Nor does a number survive that is too large for the nearest double to be within half a
  cent: from \<open>2\<^sup>4\<^sup>6\<close> on there are such amounts.
\<close>

lemma amount_round_trip_needs_bound:
  "rmatch rx_amount ''70368744177664.01'' \<and> canonical_amount ''70368744177664.01'' \<and>
   dollars (the (parseFloat ''70368744177664.01'')) = ''$70368744177664.02''"
  by code_simp

text \<open>
  C7, amended: for every numeric part that matches \<^verbatim>\<open>^\d+\.\d{2}$\<close>, has no
  superfluous leading zero and is at most 16 characters long (13 digits before the
  point), \<open>parseFloat\<close> returns a number and \<^verbatim>\<open>'$' + amount.toFixed(2)\<close> is
  \<^verbatim>\<open>'$'\<close> followed by that numeric part.
\<close>

theorem amount_round_trip:
  assumes "rmatch rx_amount s" and "canonical_amount s" and "length s \<le> 16"
  shows "\<exists>a. parseFloat s = Some a \<and> dollars a = ''$'' @ s"
proof -
  from assms(1) obtain ds fs where s: "s = ds @ CHR ''.'' # fs" and ds: "ds \<noteq> []"
    and fs: "length fs = 2" and dig: "\<forall>c \<in> set (ds @ fs). is_digit c"
    unfolding rmatch_amount by blast
  define n where "n = dec_val (ds @ fs)"
  have pf: "parseFloat s = Some (fl (of_int n / 100))"
    using parseFloat_amount [OF ds dig] fs by (simp add: s n_def)
  have "length (ds @ fs) \<le> 15" using assms(3) fs by (simp add: s)
  then have "(10::int) ^ length (ds @ fs) \<le> 10 ^ 15"
    by (intro power_increasing) simp_all
  with dec_val_bounds [OF dig] have n: "0 \<le> n" "n \<le> 10 ^ 15"
    by (simp_all add: n_def)
  have c: "toFixed_n (fl (of_int n / 100)) = n"
    using cents_fl [OF n] by (simp add: cents_def)
  have "0 \<le> fl (of_int n / 100)"
    using n(1) by (intro fl_nonneg) simp
  moreover have "fl (of_int n / 100) < 10 ^ 21"
  proof -
    have "(of_int n :: rat) \<le> of_int (10 ^ 15)"
      using n(2) by (simp only: of_int_le_iff)
    then have "(of_int n :: rat) / 100 \<le> 10000000000000" by simp
    then have "fl (of_int n / 100) < 1000000000000000000000"
      using fl_cents_error [OF n] by linarith
    then show ?thesis by simp
  qed
  ultimately have "dollars (fl (of_int n / 100)) = ''$'' @ fixed_digits n"
    by (simp add: dollars_def toFixed2_def toFixed2_abs_def c)
  also have "fixed_digits n = s"
    unfolding n_def s using ds fs dig assms(2) [unfolded s] by (rule fixed_digits_canonical)
  finally show ?thesis using pf by simp
qed

theorem amount_round_trip_witness:
  "rmatch rx_amount ''50.00'' \<and> canonical_amount ''50.00'' \<and> length ''50.00'' \<le> 16 \<and>
   parseFloat ''50.00'' = Some 50 \<and> dollars 50 = ''$50.00''"
proof -
  have m: "rmatch rx_amount ''50.00''" and c: "canonical_amount ''50.00''"
    and p: "parseFloat ''50.00'' = Some 50"
    by code_simp+
  have l: "length ''50.00'' \<le> 16" by simp
  show ?thesis
    using amount_round_trip [OF m c l] m c p by simp
qed

section \<open>Sums in whole cents\<close>

lemma cents_nonneg: "0 \<le> x \<Longrightarrow> 0 \<le> cents x"
  by (simp add: cents_def toFixed_n_def)

lemma total_cents_append: "total_cents (rs @ ss) = total_cents rs + total_cents ss"
  by (simp add: total_cents_def)

lemma amounts_in_cents_filter: "amounts_in_cents rs \<Longrightarrow> amounts_in_cents (filter P rs)"
  by (simp add: amounts_in_cents_def)

lemma amounts_nonneg:
  assumes "amounts_in_cents rs" and "rc \<in> set rs"
  shows "0 \<le> cents (r_amount rc)"
proof -
  from assms obtain n where "0 < n" "r_amount rc = fl (of_int n / 100)"
    unfolding amounts_in_cents_def by blast
  then show ?thesis
    by (intro cents_nonneg) (simp add: fl_nonneg)
qed

lemma total_cents_nonneg: "amounts_in_cents rs \<Longrightarrow> 0 \<le> total_cents rs"
  unfolding total_cents_def
  by (intro sum_list_nonneg) (auto dest: amounts_nonneg)

lemma total_cents_filter_le:
  "amounts_in_cents rs \<Longrightarrow> total_cents (filter P rs) \<le> total_cents rs"
proof (induction rs)
  case Nil
  show ?case by simp
next
  case (Cons rc rs)
  have "amounts_in_cents rs" using Cons.prems by (simp add: amounts_in_cents_def)
  moreover have "0 \<le> cents (r_amount rc)"
    using Cons.prems by (intro amounts_nonneg [of "rc # rs"]) simp_all
  ultimately show ?case
    using Cons.IH by (simp add: total_cents_def)
qed

lemma member_le_total:
  "amounts_in_cents rs \<Longrightarrow> rc \<in> set rs \<Longrightarrow> cents (r_amount rc) \<le> total_cents rs"
proof (induction rs)
  case Nil
  then show ?case by simp
next
  case (Cons x rs)
  have rest: "amounts_in_cents rs" using Cons.prems(1) by (simp add: amounts_in_cents_def)
  have x: "0 \<le> cents (r_amount x)"
    using Cons.prems(1) by (intro amounts_nonneg [of "x # rs"]) simp_all
  show ?case
  proof (cases "rc = x")
    case True
    then show ?thesis
      using total_cents_nonneg [OF rest] by (simp add: total_cents_def)
  next
    case False
    then have "cents (r_amount rc) \<le> total_cents rs"
      using Cons.IH [OF rest] Cons.prems(2) by simp
    then show ?thesis using x by (simp add: total_cents_def)
  qed
qed

lemma member_cents:
  assumes "amounts_in_cents rs" and "total_cents rs \<le> 10 ^ 15" and "rc \<in> set rs"
  shows "0 < cents (r_amount rc) \<and> r_amount rc = fl (of_int (cents (r_amount rc)) / 100) \<and>
         cents (r_amount rc) \<le> 10 ^ 15"
proof -
  have le: "cents (r_amount rc) \<le> 10 ^ 15"
    using member_le_total [OF assms(1,3)] assms(2) by linarith
  from assms(1,3) obtain n where n: "0 < n" "r_amount rc = fl (of_int n / 100)"
    unfolding amounts_in_cents_def by blast
  have n15: "n \<le> 10 ^ 15"
  proof (rule cents_fl_large)
    show "0 \<le> n" using n(1) by simp
    show "cents (fl (of_int n / 100)) \<le> 10 ^ 15" using le unfolding n(2) .
  qed
  have c: "cents (fl (of_int n / 100)) = n"
  proof (rule cents_fl)
    show "0 \<le> n" using n(1) by simp
    show "n \<le> 10 ^ 15" by (rule n15)
  qed
  show ?thesis
    unfolding n(2) c using n(1) n15 by (intro conjI) (rule refl | assumption)+
qed

lemma nonempty_total_pos:
  assumes "amounts_in_cents rs" and "total_cents rs \<le> 10 ^ 15" and "rs \<noteq> []"
  shows "0 < total_cents rs"
proof -
  obtain rc xs where rs: "rs = rc # xs" using assms(3) by (cases rs) auto
  have "0 < cents (r_amount rc)"
    using member_cents [OF assms(1,2), of rc] by (simp add: rs)
  moreover have "0 \<le> total_cents xs"
    using assms(1) by (intro total_cents_nonneg) (simp add: rs amounts_in_cents_def)
  ultimately show ?thesis by (simp add: rs total_cents_def)
qed

lemma fl_total_fresh:
  assumes "amounts_in_cents rs" and "total_cents rs \<le> 10 ^ 15"
  shows "falsy (if rs = [] then None else Some (fl (of_int (total_cents rs) / 100))) \<longleftrightarrow> rs = []"
proof (cases "rs = []")
  case True
  then show ?thesis by (simp add: falsy_def)
next
  case False
  have "0 < total_cents rs" using assms False by (rule nonempty_total_pos)
  then have "0 < fl (of_int (total_cents rs) / 100)"
    by (intro fl_positive) simp
  with False show ?thesis by (simp add: falsy_def)
qed

lemma year_receipts_snoc:
  "year_receipts (rs @ [rc]) y = year_receipts rs y @ (if r_year rc = y then [rc] else [])"
  by (simp add: year_receipts_def)

lemma category_receipts_snoc:
  "category_receipts (rs @ [rc]) y c =
     category_receipts rs y c @ (if r_year rc = y \<and> category rc = c then [rc] else [])"
  by (simp add: category_receipts_def year_receipts_def)

lemma category_receipts_filter:
  "category_receipts rs y c = filter (\<lambda>rc. r_year rc = y \<and> category rc = c) rs"
  by (simp add: category_receipts_def year_receipts_def conj_commute)

lemma year_total_le:
  "amounts_in_cents rs \<Longrightarrow> total_cents (year_receipts rs y) \<le> total_cents rs"
  unfolding year_receipts_def by (rule total_cents_filter_le)

lemma category_total_le:
  "amounts_in_cents rs \<Longrightarrow> total_cents (category_receipts rs y c) \<le> total_cents rs"
  unfolding category_receipts_filter by (rule total_cents_filter_le)

lemma add_cents:
  assumes "amounts_in_cents rs" and "total_cents rs + m \<le> 10 ^ 15" and "0 < m"
  shows "round2 (fadd (fl (of_int (total_cents rs) / 100)) (fl (of_int m / 100))) =
         fl (of_int (total_cents rs + m) / 100)"
proof (rule round2_fadd_cents)
  show "0 \<le> total_cents rs" using assms(1) by (rule total_cents_nonneg)
  show "0 \<le> m" using assms(3) by simp
  show "total_cents rs + m \<le> 10 ^ 15" by (rule assms(2))
qed

lemma accept_exact:
  assumes ex: "exact_sums st" and sy: "same_years st"
    and am: "amounts_in_cents (validReceipts st)"
    and n: "0 < n" "amount p = fl (of_int n / 100)"
    and bound: "total_cents (validReceipts (accept fileName p st)) \<le> 10 ^ 15"
  shows "exact_sums (accept fileName p st)"
proof -
  define y where "y = the (year p)"
  define c where "c = category_of (the (description p))"
  define a where "a = amount p"
  define rs where "rs = validReceipts st"
  define rc where "rc = \<lparr>date = split_js fileName '' - '' ! 0, r_year = y,
     r_description = the (description p), r_amount = a, isReimbursed = isReimbursement p,
     category = c\<rparr>"
  define cats0 where "cats0 = prev_categories st y"
  define d0 where "d0 = prev_category st y c"
  define d' where "d' = \<lparr>expenses = round2 (fadd (expenses d0) a),
     reimbursements = (if isReimbursement p then round2 (fadd (reimbursements d0) a)
       else reimbursements d0),
     count = count d0 + 1\<rparr>"
  let ?st' = "accept fileName p st"
  have V': "validReceipts ?st' = rs @ [rc]"
    by (simp add: accept_eq rs_def rc_def y_def c_def a_def)
  have E': "expensesByYear ?st' = (expensesByYear st)(y \<mapsto> round2 (fadd (prev_expenses st y) a))"
    by (simp add: accept_eq y_def a_def)
  have C': "expensesByCategory ?st' =
      (if map_of cats0 c = None \<and> inherited_key c
       then if falsy (expensesByYear st y) then (expensesByCategory st)(y \<mapsto> [])
         else expensesByCategory st
       else (expensesByCategory st)(y \<mapsto> AList.update c d' cats0))"
    by (simp add: accept_eq y_def c_def a_def d'_def d0_def cats0_def)
  have rcy: "r_year rc = y" and rcc: "category rc = c" and rca: "r_amount rc = a"
    by (simp_all add: rc_def)
  have am': "amounts_in_cents (rs @ [rc])"
    using am n by (auto simp: amounts_in_cents_def rs_def rca a_def)
  have bound': "total_cents (rs @ [rc]) \<le> 10 ^ 15"
    using bound by (simp add: V')
  define m where "m = cents a"
  have m: "0 < m" "a = fl (of_int m / 100)"
    using member_cents [OF am' bound', of rc] by (simp_all add: rca m_def)
  have ams: "amounts_in_cents rs" using am by (simp add: rs_def)
  have tot: "total_cents (rs @ [rc]) = total_cents rs + m"
    by (simp add: total_cents_def rca m_def)
  have rs15: "total_cents rs \<le> 10 ^ 15"
    using bound' m(1) by (simp add: tot)
  \<comment> \<open>the year\<close>
  define yr where "yr = year_receipts rs y"
  have yr_am: "amounts_in_cents yr"
    unfolding yr_def year_receipts_def using ams by (rule amounts_in_cents_filter)
  have yr_le: "total_cents yr \<le> total_cents rs"
    unfolding yr_def using ams by (rule year_total_le)
  have yr15: "total_cents yr \<le> 10 ^ 15" using yr_le rs15 by linarith
  have Ey: "expensesByYear st y =
      (if yr = [] then None else Some (fl (of_int (total_cents yr) / 100)))"
    using ex by (simp add: exact_sums_def rs_def yr_def)
  have fresh: "falsy (expensesByYear st y) \<longleftrightarrow> yr = []"
    unfolding Ey using yr_am yr15 by (rule fl_total_fresh)
  have prev: "prev_expenses st y = fl (of_int (total_cents yr) / 100)"
  proof (cases "yr = []")
    case True
    then show ?thesis using fresh by (simp add: prev_expenses_def total_cents_def fl_zero)
  next
    case False
    then show ?thesis using fresh by (simp add: prev_expenses_def Ey)
  qed
  have "total_cents yr + m \<le> 10 ^ 15"
    using yr_le bound' by (simp add: tot)
  then have newE: "round2 (fadd (prev_expenses st y) a) = fl (of_int (total_cents yr + m) / 100)"
    unfolding prev m(2) using yr_am m(1) by (intro add_cents)
  have years: "expensesByYear ?st' z =
      (if year_receipts (rs @ [rc]) z = [] then None
       else Some (fl (of_int (total_cents (year_receipts (rs @ [rc]) z)) / 100)))" for z
  proof (cases "z = y")
    case True
    have "year_receipts (rs @ [rc]) y = yr @ [rc]"
      by (simp add: year_receipts_snoc rcy yr_def)
    then show ?thesis
      by (simp add: True E' newE total_cents_def rca m_def)
  next
    case False
    then have "year_receipts (rs @ [rc]) z = year_receipts rs z"
      by (simp add: year_receipts_snoc rcy)
    then show ?thesis
      using ex False by (simp add: E' exact_sums_def rs_def)
  qed
  \<comment> \<open>the categories of the year\<close>
  have stored: "expensesByCategory st y = Some cats0" if "yr \<noteq> []"
  proof -
    from that have "y \<in> dom (expensesByYear st)" by (simp add: Ey domIff)
    then have "y \<in> dom (expensesByCategory st)" using sy by (simp add: same_years_def)
    then obtain cats where cats: "expensesByCategory st y = Some cats" by blast
    then show ?thesis
      using fresh that by (simp add: cats0_def prev_categories_def)
  qed
  have empty: "cats0 = []" if "yr = []"
    using fresh that by (simp add: cats0_def prev_categories_def)
  have cats0: "exact_categories rs y cats0"
  proof (cases "yr = []")
    case True
    then have "category_receipts rs y k = []" for k
      by (simp add: category_receipts_def yr_def)
    then show ?thesis
      using empty [OF True] by (simp add: exact_categories_def)
  next
    case False
    then show ?thesis
      using ex stored [OF False] by (simp add: exact_sums_def rs_def)
  qed
  have look: "map_option expenses (map_of cats0 k) =
      (if inherited_key k \<or> category_receipts rs y k = [] then None
       else Some (fl (of_int (total_cents (category_receipts rs y k)) / 100)))" for k
    using cats0 by (simp add: exact_categories_def)
  have dist: "distinct (map fst cats0)"
    using cats0 by (simp add: exact_categories_def)
  have cats': "exact_categories (rs @ [rc]) y cats"
    if new: "expensesByCategory ?st' y = Some cats" for cats
  proof (cases "inherited_key c")
    case True
    then have none: "map_of cats0 c = None" using look [of c] by simp
    have "cats = cats0"
    proof (cases "yr = []")
      case True
      then show ?thesis
        using new none \<open>inherited_key c\<close> fresh empty by (simp add: C')
    next
      case False
      then show ?thesis
        using new none \<open>inherited_key c\<close> fresh stored by (simp add: C')
    qed
    moreover have "map_option expenses (map_of cats0 k) =
        (if inherited_key k \<or> category_receipts (rs @ [rc]) y k = [] then None
         else Some (fl (of_int (total_cents (category_receipts (rs @ [rc]) y k)) / 100)))" for k
    proof (cases "k = c")
      case True
      then show ?thesis using none \<open>inherited_key c\<close> by simp
    next
      case False
      then have "category_receipts (rs @ [rc]) y k = category_receipts rs y k"
        by (simp add: category_receipts_snoc rcc)
      then show ?thesis using look [of k] by simp
    qed
    ultimately show ?thesis
      using dist by (simp add: exact_categories_def)
  next
    case False
    then have cats: "cats = AList.update c d' cats0"
      using new by (simp add: C')
    define cr where "cr = category_receipts rs y c"
    have cr_am: "amounts_in_cents cr"
      unfolding cr_def category_receipts_filter using ams by (rule amounts_in_cents_filter)
    have cr_le: "total_cents cr \<le> total_cents rs"
      unfolding cr_def using ams by (rule category_total_le)
    have lookc: "map_option expenses (map_of cats0 c) =
        (if cr = [] then None else Some (fl (of_int (total_cents cr) / 100)))"
      using look [of c] False by (simp add: cr_def)
    have d0e: "expenses d0 = fl (of_int (total_cents cr) / 100)"
    proof (cases "cr = []")
      case True
      then have "map_of cats0 c = None" using lookc by simp
      then show ?thesis
        using True
        by (simp add: d0_def prev_category_def cats0_def [symmetric] total_cents_def fl_zero)
    next
      case False
      then obtain d where "map_of cats0 c = Some d"
        "expenses d = fl (of_int (total_cents cr) / 100)"
        using lookc by auto
      then show ?thesis
        by (simp add: d0_def prev_category_def cats0_def [symmetric])
    qed
    have "total_cents cr + m \<le> 10 ^ 15"
      using cr_le bound' by (simp add: tot)
    then have newC: "expenses d' = fl (of_int (total_cents cr + m) / 100)"
      unfolding d'_def d0e m(2) using cr_am m(1) by (simp add: add_cents)
    show ?thesis
      unfolding exact_categories_def cats
    proof (intro conjI allI)
      show "distinct (map fst (AList.update c d' cats0))"
        using dist by (simp add: distinct_update)
    next
      fix k
      show "map_option expenses (map_of (AList.update c d' cats0) k) =
          (if inherited_key k \<or> category_receipts (rs @ [rc]) y k = [] then None
           else Some (fl (of_int (total_cents (category_receipts (rs @ [rc]) y k)) / 100)))"
      proof (cases "k = c")
        case True
        have "category_receipts (rs @ [rc]) y c = cr @ [rc]"
          by (simp add: category_receipts_snoc rcy rcc cr_def)
        then show ?thesis
          using False by (simp add: True update_conv' newC total_cents_def rca m_def)
      next
        case neq: False
        then have "category_receipts (rs @ [rc]) y k = category_receipts rs y k"
          by (simp add: category_receipts_snoc rcc)
        then show ?thesis
          using look [of k] neq by (simp add: update_conv')
      qed
    qed
  qed
  have categories: "exact_categories (rs @ [rc]) z cats"
    if "expensesByCategory ?st' z = Some cats" for z cats
  proof (cases "z = y")
    case True
    then show ?thesis using that cats' by simp
  next
    case False
    then have "expensesByCategory st z = Some cats" using that by (simp add: C' split: if_splits)
    then have "exact_categories rs z cats" using ex by (simp add: exact_sums_def rs_def)
    moreover have "category_receipts (rs @ [rc]) z k = category_receipts rs z k" for k
      using False by (simp add: category_receipts_snoc rcy)
    ultimately show ?thesis by (simp add: exact_categories_def)
  qed
  show ?thesis
    unfolding exact_sums_def V' using years categories by blast
qed

lemma valid_amount_cents:
  assumes "isValid (parseFileName fileName)"
  shows "\<exists>n. 0 \<le> n \<and> amount (parseFileName fileName) = fl (of_int n / 100)"
proof -
  define s where "s = strip_amount (amount_token fileName)"
  have "check_amount fileName"
    using assms unfolding parseFileName_checked
    by (auto simp: checked_result_def invalid_def split: if_splits)
  then have m: "rmatch rx_amount s" by (simp add: check_amount_def s_def)
  then obtain ds fs where s: "s = ds @ CHR ''.'' # fs" and ds: "ds \<noteq> []"
    and fs: "length fs = 2" and dig: "\<forall>c \<in> set (ds @ fs). is_digit c"
    unfolding rmatch_amount by blast
  have "amount (parseFileName fileName) = the (parseFloat s)"
    using assms unfolding parseFileName_checked
    by (auto simp: checked_result_def invalid_def s_def split: if_splits)
  also have "\<dots> = fl (of_int (dec_val (ds @ fs)) / 100)"
    using parseFloat_amount [OF ds dig] fs by (simp add: s)
  finally show ?thesis
    using dec_val_bounds [OF dig] by blast
qed

lemma accepted_amount_cents:
  assumes "isValid (parseFileName fileName)" and "0 < amount (parseFileName fileName)"
  shows "\<exists>n. 0 < n \<and> amount (parseFileName fileName) = fl (of_int n / 100)"
proof -
  from valid_amount_cents [OF assms(1)] obtain n
    where n: "0 \<le> n" "amount (parseFileName fileName) = fl (of_int n / 100)" by blast
  have "n \<noteq> 0" using assms(2) n(2) by (auto simp: fl_zero)
  with n show ?thesis by (intro exI [of _ n]) simp
qed

lemma accept_receipts:
  "\<exists>rc. validReceipts (accept fileName p st) = validReceipts st @ [rc] \<and> r_amount rc = amount p"
  by (simp add: accept_eq)

lemma processFile_outcomes:
  "processFile st fileName = st \<or>
   processFile st fileName =
     st\<lparr>invalidFiles := invalidFiles st @ [(fileName, error (parseFileName fileName))]\<rparr> \<or>
   processFile st fileName = accept fileName (parseFileName fileName) st \<and>
     isValid (parseFileName fileName) \<and> 0 < amount (parseFileName fileName)"
  by (simp add: processFile_def Let_def)

lemma processFile_amounts:
  assumes "amounts_in_cents (validReceipts st)"
  shows "amounts_in_cents (validReceipts (processFile st fileName))"
proof -
  consider (skip) "processFile st fileName = st"
    | (bad) "processFile st fileName =
        st\<lparr>invalidFiles := invalidFiles st @ [(fileName, error (parseFileName fileName))]\<rparr>"
    | (good) "processFile st fileName = accept fileName (parseFileName fileName) st"
        "isValid (parseFileName fileName)" "0 < amount (parseFileName fileName)"
    using processFile_outcomes by blast
  then show ?thesis
  proof cases
  case skip
  with assms show ?thesis by simp
next
  case bad
  with assms show ?thesis by simp
next
  case good
  obtain rc where rc: "validReceipts (accept fileName (parseFileName fileName) st) =
      validReceipts st @ [rc]" "r_amount rc = amount (parseFileName fileName)"
    using accept_receipts by blast
  show ?thesis
    using assms accepted_amount_cents [OF good(2,3)]
    by (auto simp: good(1) rc amounts_in_cents_def)
  qed
qed

lemma processFile_total_mono:
  assumes "amounts_in_cents (validReceipts st)"
  shows "total_cents (validReceipts st) \<le> total_cents (validReceipts (processFile st fileName))"
proof -
  consider (skip) "processFile st fileName = st"
    | (bad) "processFile st fileName =
        st\<lparr>invalidFiles := invalidFiles st @ [(fileName, error (parseFileName fileName))]\<rparr>"
    | (good) "processFile st fileName = accept fileName (parseFileName fileName) st"
        "isValid (parseFileName fileName)" "0 < amount (parseFileName fileName)"
    using processFile_outcomes by blast
  then show ?thesis
  proof cases
  case skip
  then show ?thesis by simp
next
  case bad
  then show ?thesis by simp
next
  case good
  obtain rc where rc: "validReceipts (accept fileName (parseFileName fileName) st) =
      validReceipts st @ [rc]" "r_amount rc = amount (parseFileName fileName)"
    using accept_receipts by blast
  have "amounts_in_cents (validReceipts st @ [rc])"
    using processFile_amounts [OF assms, of fileName] by (simp add: good(1) rc)
  then have "0 \<le> cents (r_amount rc)"
    by (rule amounts_nonneg) simp
  then show ?thesis
    by (simp add: good(1) rc total_cents_def)
  qed
qed

lemma processFile_exact:
  assumes "exact_sums st" and "same_years st" and "amounts_in_cents (validReceipts st)"
    and "total_cents (validReceipts (processFile st fileName)) \<le> 10 ^ 15"
  shows "exact_sums (processFile st fileName)"
proof -
  consider (skip) "processFile st fileName = st"
    | (bad) "processFile st fileName =
        st\<lparr>invalidFiles := invalidFiles st @ [(fileName, error (parseFileName fileName))]\<rparr>"
    | (good) "processFile st fileName = accept fileName (parseFileName fileName) st"
        "isValid (parseFileName fileName)" "0 < amount (parseFileName fileName)"
    using processFile_outcomes by blast
  then show ?thesis
  proof cases
  case skip
  with assms show ?thesis by simp
next
  case bad
  with assms(1) show ?thesis by (simp add: exact_sums_def)
next
  case good
  from accepted_amount_cents [OF good(2,3)] obtain n
    where n: "0 < n" "amount (parseFileName fileName) = fl (of_int n / 100)" by blast
  show ?thesis
    unfolding good(1) using assms(1,2,3) n
  proof (rule accept_exact)
    show "total_cents (validReceipts (accept fileName (parseFileName fileName) st)) \<le> 10 ^ 15"
      using assms(4) by (simp add: good(1))
  qed
  qed
qed

lemma scan_invariants:
  "same_years (foldl processFile init_totals fileNames) \<and>
   amounts_in_cents (validReceipts (foldl processFile init_totals fileNames))"
proof (induction fileNames rule: rev_induct)
  case Nil
  show ?case by (simp add: same_years_def init_totals_def amounts_in_cents_def)
next
  case (snoc f fs)
  then show ?case by (simp add: processFile_same_years processFile_amounts)
qed

lemma scan_exact:
  "total_cents (validReceipts (foldl processFile init_totals fileNames)) \<le> 10 ^ 15 \<Longrightarrow>
   exact_sums (foldl processFile init_totals fileNames)"
proof (induction fileNames rule: rev_induct)
  case Nil
  show ?case
    by (simp add: exact_sums_def init_totals_def year_receipts_def)
next
  case (snoc f fs)
  let ?st = "foldl processFile init_totals fs"
  have inv: "same_years ?st" "amounts_in_cents (validReceipts ?st)"
    using scan_invariants [of fs] by simp_all
  have "total_cents (validReceipts ?st) \<le> total_cents (validReceipts (processFile ?st f))"
    using inv(2) by (rule processFile_total_mono)
  with snoc.prems have "total_cents (validReceipts ?st) \<le> 10 ^ 15" by simp
  then have "exact_sums ?st" by (rule snoc.IH)
  then have "exact_sums (processFile ?st f)"
    using inv snoc.prems by (intro processFile_exact) simp_all
  then show ?case by simp
qed

lemma sum_by_key:
  fixes g :: "'a \<Rightarrow> int"
  assumes "finite S"
  shows "f ` set xs \<subseteq> S \<Longrightarrow>
    (\<Sum>k \<in> S. sum_list (map g (filter (\<lambda>x. f x = k) xs))) = sum_list (map g xs)"
proof (induction xs)
  case Nil
  show ?case by simp
next
  case (Cons x xs)
  have "(\<Sum>k \<in> S. sum_list (map g (filter (\<lambda>z. f z = k) (x # xs)))) =
      (\<Sum>k \<in> S. (if f x = k then g x else 0) + sum_list (map g (filter (\<lambda>z. f z = k) xs)))"
    by (intro sum.cong) simp_all
  also have "\<dots> = (\<Sum>k \<in> S. if f x = k then g x else 0) +
      (\<Sum>k \<in> S. sum_list (map g (filter (\<lambda>z. f z = k) xs)))"
    by (rule sum.distrib)
  also have "(\<Sum>k \<in> S. if f x = k then g x else 0) = g x"
    using assms Cons.prems by simp
  also have "(\<Sum>k \<in> S. sum_list (map g (filter (\<lambda>z. f z = k) xs))) = sum_list (map g xs)"
    using Cons.prems by (intro Cons.IH) simp
  finally show ?case by simp
qed

lemma scan_year_cents:
  assumes "total_cents (validReceipts (foldl processFile init_totals fileNames)) \<le> 10 ^ 15"
    and "y \<in> dom (expensesByYear (foldl processFile init_totals fileNames))"
  shows "cents (the (expensesByYear (foldl processFile init_totals fileNames) y)) =
         total_cents (year_receipts (validReceipts (foldl processFile init_totals fileNames)) y)"
proof -
  let ?r = "foldl processFile init_totals fileNames"
  have ex: "exact_sums ?r" using assms(1) by (rule scan_exact)
  have am: "amounts_in_cents (validReceipts ?r)" using scan_invariants by simp
  let ?yr = "year_receipts (validReceipts ?r) y"
  have E: "expensesByYear ?r y = Some (fl (of_int (total_cents ?yr) / 100))"
    using ex assms(2) by (auto simp: exact_sums_def domIff split: if_splits)
  have "total_cents ?yr \<le> total_cents (validReceipts ?r)"
    using am by (rule year_total_le)
  then have le: "total_cents ?yr \<le> 10 ^ 15" using assms(1) by linarith
  have "amounts_in_cents ?yr"
    unfolding year_receipts_def using am by (rule amounts_in_cents_filter)
  then have "0 \<le> total_cents ?yr" by (rule total_cents_nonneg)
  then have "cents (fl (of_int (total_cents ?yr) / 100)) = total_cents ?yr"
    using le by (rule cents_fl)
  then show ?thesis by (simp add: E)
qed

lemma scan_years_dom:
  assumes "total_cents (validReceipts (foldl processFile init_totals fileNames)) \<le> 10 ^ 15"
  shows "dom (expensesByYear (foldl processFile init_totals fileNames)) =
         r_year ` set (validReceipts (foldl processFile init_totals fileNames))"
proof -
  let ?r = "foldl processFile init_totals fileNames"
  have ex: "exact_sums ?r" using assms by (rule scan_exact)
  have "y \<in> dom (expensesByYear ?r) \<longleftrightarrow> y \<in> r_year ` set (validReceipts ?r)" for y
  proof -
    have "y \<in> dom (expensesByYear ?r) \<longleftrightarrow> year_receipts (validReceipts ?r) y \<noteq> []"
      using ex by (simp add: exact_sums_def domIff)
    also have "\<dots> \<longleftrightarrow> y \<in> r_year ` set (validReceipts ?r)"
      by (auto simp: year_receipts_def filter_empty_conv)
    finally show ?thesis .
  qed
  then show ?thesis by blast
qed

lemma added_values:
  "fadd 0 (5404319552844595 / 18014398509481984) = 5404319552844595 / 18014398509481984"
  "fadd 0 (3602879701896397 / 36028797018963968) = 3602879701896397 / 36028797018963968"
  "fadd (3602879701896397 / 36028797018963968) (3602879701896397 / 18014398509481984) =
     1351079888211149 / 4503599627370496"
  by code_simp+

lemma cents_values:
  "cents (3602879701896397 / 36028797018963968) = 10"
  "cents (3602879701896397 / 18014398509481984) = 20"
  "cents (5404319552844595 / 18014398509481984) = 30"
  by code_simp+

lemma thirty_cents_result: "getTotalsByYear (Inr [dime_receipt, twenty_cents_receipt]) = Inr thirty_cents"
  by (simp add: getTotalsByYear_def thirty_cents_def)

text \<open>
  C2 fails as stated: each yearly sum is rounded to the cent after every addition, the
  receipt amounts are not. For receipts of \<^verbatim>\<open>$0.10\<close> and \<^verbatim>\<open>$0.20\<close> in one year the
  yearly sum is the number 0.3, and the amounts add up to 0.30000000000000004, exactly
  and as JavaScript adds them.
\<close>

theorem yearly_sum_counterexample:
  "getTotalsByYear (Inr [dime_receipt, twenty_cents_receipt]) = Inr thirty_cents \<and>
   \<not> sum_invariant thirty_cents \<and> \<not> sum_invariant_added thirty_cents [''2021'']"
proof (intro conjI)
  show "getTotalsByYear (Inr [dime_receipt, twenty_cents_receipt]) = Inr thirty_cents"
    by (rule thirty_cents_result)
  show "\<not> sum_invariant thirty_cents"
    unfolding thirty_cents_def scan_dime_twenty_cents sum_invariant_def by simp
  show "\<not> sum_invariant_added thirty_cents [''2021'']"
    unfolding thirty_cents_def scan_dime_twenty_cents sum_invariant_added_def
    by (simp add: added_values)
qed

text \<open>
  C2, amended: for every directory listing whose accepted receipts total at most
  \<open>10\<^sup>1\<^sup>5\<close> cents, the sum over the years of \<open>expensesByYear\<close> in whole cents equals
  the sum over \<open>validReceipts\<close> of the amounts in whole cents.
\<close>

theorem yearly_cents_match_receipt_cents:
  assumes "getTotalsByYear (Inr fileNames) = Inr r"
    and "total_cents (validReceipts r) \<le> 10 ^ 15"
  shows "(\<Sum>y \<in> dom (expensesByYear r). cents (the (expensesByYear r y))) =
         total_cents (validReceipts r)"
proof -
  have r: "r = foldl processFile init_totals fileNames"
    using assms(1) by (simp add: getTotalsByYear_def)
  have b: "total_cents (validReceipts (foldl processFile init_totals fileNames)) \<le> 10 ^ 15"
    using assms(2) by (simp add: r)
  let ?rs = "validReceipts r"
  have "(\<Sum>y \<in> dom (expensesByYear r). cents (the (expensesByYear r y))) =
      (\<Sum>y \<in> dom (expensesByYear r). total_cents (year_receipts ?rs y))"
    unfolding r using scan_year_cents [OF b] by (intro sum.cong) simp_all
  also have "\<dots> = (\<Sum>y \<in> r_year ` set ?rs. total_cents (year_receipts ?rs y))"
    unfolding r scan_years_dom [OF b] ..
  also have "\<dots> = total_cents ?rs"
    unfolding total_cents_def year_receipts_def
    by (rule sum_by_key) simp_all
  finally show ?thesis .
qed

theorem yearly_cents_match_receipt_cents_witness:
  "getTotalsByYear (Inr [dime_receipt, twenty_cents_receipt]) = Inr thirty_cents \<and>
   total_cents (validReceipts thirty_cents) \<le> 10 ^ 15 \<and>
   total_cents (validReceipts thirty_cents) = 30 \<and>
   (\<Sum>y \<in> dom (expensesByYear thirty_cents). cents (the (expensesByYear thirty_cents y))) = 30"
proof -
  have t: "total_cents (validReceipts thirty_cents) = 30"
    unfolding thirty_cents_def scan_dime_twenty_cents
    by (simp add: total_cents_def cents_values)
  then have b: "total_cents (validReceipts thirty_cents) \<le> 10 ^ 15" by simp
  show ?thesis
    using yearly_cents_match_receipt_cents [OF thirty_cents_result b] thirty_cents_result t b
    by simp
qed

text \<open>
  C3 fails as stated, for the same two receipts, which are of two categories: the category
  sums are the numbers 0.1 and 0.2, the yearly sum is the number 0.3.
\<close>

theorem category_sum_counterexample:
  "getTotalsByYear (Inr [dime_receipt, twenty_cents_receipt]) = Inr thirty_cents \<and>
   ''2021'' \<in> dom (expensesByYear thirty_cents) \<and>
   \<not> category_invariant thirty_cents ''2021'' \<and>
   \<not> category_invariant_added thirty_cents ''2021''"
proof (intro conjI)
  show "getTotalsByYear (Inr [dime_receipt, twenty_cents_receipt]) = Inr thirty_cents"
    by (rule thirty_cents_result)
  show "''2021'' \<in> dom (expensesByYear thirty_cents)"
    unfolding thirty_cents_def scan_dime_twenty_cents by simp
  show "\<not> category_invariant thirty_cents ''2021''"
    unfolding thirty_cents_def scan_dime_twenty_cents category_invariant_def by simp
  show "\<not> category_invariant_added thirty_cents ''2021''"
    unfolding thirty_cents_def scan_dime_twenty_cents category_invariant_added_def
    by (simp add: added_values)
qed

text \<open>
  C3, amended: for every directory listing whose accepted receipts total at most
  \<open>10\<^sup>1\<^sup>5\<close> cents and have no category named \<^verbatim>\<open>constructor\<close> or
  \<^verbatim>\<open>__proto__\<close>, and for every year of the result, the sum over the categories of
  that year of their expenses in whole cents equals the year's \<open>expensesByYear\<close> in
  whole cents.
\<close>

theorem category_cents_match_year_cents:
  assumes "getTotalsByYear (Inr fileNames) = Inr r"
    and "total_cents (validReceipts r) \<le> 10 ^ 15"
    and "y \<in> dom (expensesByYear r)"
    and "\<forall>rc \<in> set (validReceipts r). \<not> inherited_key (category rc)"
  shows "(\<Sum>(c, d)\<leftarrow>the (expensesByCategory r y). cents (expenses d)) =
         cents (the (expensesByYear r y))"
proof -
  have r: "r = foldl processFile init_totals fileNames"
    using assms(1) by (simp add: getTotalsByYear_def)
  have b: "total_cents (validReceipts (foldl processFile init_totals fileNames)) \<le> 10 ^ 15"
    using assms(2) by (simp add: r)
  have ex: "exact_sums r" unfolding r using b by (rule scan_exact)
  have sy: "same_years r" and am: "amounts_in_cents (validReceipts r)"
    unfolding r using scan_invariants by simp_all
  let ?rs = "validReceipts r"
  define yr where "yr = year_receipts ?rs y"
  have "y \<in> dom (expensesByCategory r)" using sy assms(3) by (simp add: same_years_def)
  then obtain cats where cats: "expensesByCategory r y = Some cats" by blast
  then have ec: "exact_categories ?rs y cats" using ex by (simp add: exact_sums_def)
  then have dist: "distinct (map fst cats)" by (simp add: exact_categories_def)
  have own: "category_receipts ?rs y c = []" if "inherited_key c" for c
    using that assms(4) by (auto simp: category_receipts_filter filter_empty_conv)
  have look: "map_option expenses (map_of cats c) =
      (if category_receipts ?rs y c = [] then None
       else Some (fl (of_int (total_cents (category_receipts ?rs y c)) / 100)))" for c
    using ec own [of c] by (auto simp: exact_categories_def)
  have cat_cents: "cents (fl (of_int (total_cents (category_receipts ?rs y c)) / 100)) =
      total_cents (category_receipts ?rs y c)" for c
  proof (rule cents_fl)
    have "amounts_in_cents (category_receipts ?rs y c)"
      unfolding category_receipts_filter using am by (rule amounts_in_cents_filter)
    then show "0 \<le> total_cents (category_receipts ?rs y c)" by (rule total_cents_nonneg)
    have "total_cents (category_receipts ?rs y c) \<le> total_cents ?rs"
      using am by (rule category_total_le)
    then show "total_cents (category_receipts ?rs y c) \<le> 10 ^ 15" using assms(2) by linarith
  qed
  have entry: "cents (expenses d) = total_cents (category_receipts ?rs y c)"
    if "(c, d) \<in> set cats" for c d
  proof -
    have "map_of cats c = Some d" using dist that by simp
    then have "expenses d = fl (of_int (total_cents (category_receipts ?rs y c)) / 100)"
      using look [of c] by (auto split: if_splits)
    then show ?thesis by (simp add: cat_cents)
  qed
  have keys: "set (map fst cats) = category ` set yr"
  proof -
    have "c \<in> set (map fst cats) \<longleftrightarrow> c \<in> category ` set yr" for c
    proof -
      have "c \<in> set (map fst cats) \<longleftrightarrow> map_of cats c \<noteq> None"
        by (simp add: map_of_eq_None_iff)
      also have "\<dots> \<longleftrightarrow> category_receipts ?rs y c \<noteq> []"
        using look [of c] by (auto split: if_splits)
      also have "\<dots> \<longleftrightarrow> c \<in> category ` set yr"
        by (auto simp: category_receipts_def yr_def filter_empty_conv)
      finally show ?thesis .
    qed
    then show ?thesis by blast
  qed
  have "(\<Sum>(c, d)\<leftarrow>cats. cents (expenses d)) =
      (\<Sum>(c, d)\<leftarrow>cats. total_cents (category_receipts ?rs y c))"
    using entry by (intro arg_cong [of _ _ sum_list] map_cong) auto
  also have "\<dots> = (\<Sum>c\<leftarrow>map fst cats. total_cents (category_receipts ?rs y c))"
    by (simp add: comp_def case_prod_unfold)
  also have "\<dots> = (\<Sum>c \<in> set (map fst cats). total_cents (category_receipts ?rs y c))"
    using dist by (rule sum_list_distinct_conv_sum_set)
  also have "\<dots> = (\<Sum>c \<in> category ` set yr. total_cents (category_receipts ?rs y c))"
    unfolding keys ..
  also have "\<dots> = total_cents yr"
    unfolding total_cents_def category_receipts_def yr_def [symmetric]
    by (rule sum_by_key) simp_all
  also have "\<dots> = cents (the (expensesByYear r y))"
    using scan_year_cents [OF b] assms(3) by (simp add: r yr_def)
  finally show ?thesis by (simp add: cats)
qed

theorem category_cents_match_year_cents_witness:
  "getTotalsByYear (Inr [dime_receipt, twenty_cents_receipt]) = Inr thirty_cents \<and>
   total_cents (validReceipts thirty_cents) \<le> 10 ^ 15 \<and>
   ''2021'' \<in> dom (expensesByYear thirty_cents) \<and>
   map category (validReceipts thirty_cents) = [''josh'', ''jane''] \<and>
   \<not> inherited_key ''josh'' \<and> \<not> inherited_key ''jane'' \<and>
   cents (the (expensesByYear thirty_cents ''2021'')) = 30 \<and>
   (\<Sum>(c, d)\<leftarrow>the (expensesByCategory thirty_cents ''2021''). cents (expenses d)) = 30"
proof -
  have t: "total_cents (validReceipts thirty_cents) = 30"
    unfolding thirty_cents_def scan_dime_twenty_cents
    by (simp add: total_cents_def cents_values)
  then have b: "total_cents (validReceipts thirty_cents) \<le> 10 ^ 15" by simp
  have d: "''2021'' \<in> dom (expensesByYear thirty_cents)"
    unfolding thirty_cents_def scan_dime_twenty_cents by simp
  have k: "\<forall>rc \<in> set (validReceipts thirty_cents). \<not> inherited_key (category rc)"
    unfolding thirty_cents_def scan_dime_twenty_cents by (simp add: inherited_key_def)
  have e: "cents (the (expensesByYear thirty_cents ''2021'')) = 30"
    unfolding thirty_cents_def scan_dime_twenty_cents by (simp add: cents_values)
  have m: "map category (validReceipts thirty_cents) = [''josh'', ''jane'']"
    unfolding thirty_cents_def scan_dime_twenty_cents by simp
  have i: "\<not> inherited_key ''josh''" "\<not> inherited_key ''jane''"
    by (simp_all add: inherited_key_def)
  show ?thesis
    using category_cents_match_year_cents [OF thirty_cents_result b d k] thirty_cents_result b d m i e
    by simp
qed


end
